theory Spec2Isabelle
  imports Main "HOL-Library.AList"
begin

section \<open>Data model of \<^verbatim>\<open>cwltool/subgraph.py\<close>\<close>

text \<open>
  The functions of \<^verbatim>\<open>subgraph.py\<close> read a parsed workflow document (nested Python
  mappings and lists) and a live \<^verbatim>\<open>Workflow\<close> object. The mappings are modelled field by
  field, with exactly the fields the source reads or writes.

  A \<^verbatim>\<open>source\<close> (or \<^verbatim>\<open>outputSource\<close>) is a string or a list of strings; the source
  tells them apart with \<^verbatim>\<open>isinstance(..., MutableSequence)\<close> and \<^verbatim>\<open>aslist\<close>.
\<close>

datatype source = Scalar string | Multi "string list"

text \<open>\<^verbatim>\<open>aslist(x)\<close>: a list stays, anything else becomes a one-element list.\<close>

fun aslist :: "source \<Rightarrow> string list" where
  "aslist (Scalar s) = [s]"
| "aslist (Multi xs) = xs"

text \<open>
  An entry of a step's \<^verbatim>\<open>in\<close> list (and of the \<^verbatim>\<open>inputs\<close> list of the step object's
  \<^verbatim>\<open>tool\<close>). Every key but \<^verbatim>\<open>id\<close> may be absent.
\<close>

record inport =
  port_id :: string
  port_source :: "source option"
  port_linkMerge :: "string option"
  port_default :: "string option"
  port_type :: "string option"

text \<open>
  An entry of a step's \<^verbatim>\<open>out\<close> list: a bare identifier, or a mapping with an
  \<^verbatim>\<open>id\<close>. (Mappings without \<^verbatim>\<open>id\<close> are not modelled: they are unhashable and cannot
  become registry keys.)
\<close>

datatype outport = OutStr string | OutMap string

fun outport_id :: "outport \<Rightarrow> string" where
  "outport_id (OutStr s) = s"
| "outport_id (OutMap s) = s"

text \<open>Top-level input and output records of a document.\<close>

record input_rec =
  in_id :: string
  in_type :: string
  in_default :: "string option"

record output_rec =
  out_id :: string
  out_type :: string
  out_outputSource :: "source option"

text \<open>
  Steps, their \<^verbatim>\<open>run\<close> value, live workflow objects and documents are mutually
  recursive. A step has the keys \<^verbatim>\<open>id\<close>, \<^verbatim>\<open>in\<close>, \<^verbatim>\<open>out\<close>, \<^verbatim>\<open>run\<close> and (on the
  step object's \<^verbatim>\<open>tool\<close>) \<^verbatim>\<open>inputs\<close>. The \<^verbatim>\<open>run\<close> value is a live \<^verbatim>\<open>Workflow\<close>, an
  embedded mapping, a string reference, or some other process object. A document keeps
  \<^verbatim>\<open>class\<close>, \<^verbatim>\<open>id\<close>, \<^verbatim>\<open>inputs\<close>, \<^verbatim>\<open>outputs\<close>, \<^verbatim>\<open>steps\<close> and, in \<open>doc_other\<close>, every
  other top-level key with its value, in order.
\<close>

datatype step = Step (step_id: string) (step_in: "inport list") (step_out: "outport list")
    (step_run: run) (step_inputs: "inport list")
and run = RunWorkflow workflow | RunMap document | RunStr string | RunProcess
and workflow = Workflow (wf_tool: document) (wf_steps: "step list")
    (wf_metadata: "(string \<times> string) list")
and document = Document (doc_class: string) (doc_id: string) (doc_inputs: "input_rec list")
    (doc_outputs: "output_rec list") (doc_steps: "step list")
    (doc_other: "(string \<times> string) list")

text \<open>What \<^verbatim>\<open>make_tool\<close> and \<^verbatim>\<open>load_tool\<close> return: a \<^verbatim>\<open>Workflow\<close> or another process.\<close>

datatype process = PWorkflow workflow | POther

text \<open>
  A registry key is a string identifier, or the class object \<^verbatim>\<open>CommentedSeq\<close> itself:
  for an output without \<^verbatim>\<open>outputSource\<close> the source evaluates
  \<^verbatim>\<open>aslist(out.get("outputSource", CommentedSeq))\<close>, a one-element list holding the class.
\<close>

datatype nodeid = Name string | CommentedSeqClass

text \<open>
  The collaborators that are not part of \<^verbatim>\<open>subgraph.py\<close>, taken as parameters:
  \<^verbatim>\<open>make_tool\<close> and \<^verbatim>\<open>load_tool\<close> (with the loading context applied),
  \<^verbatim>\<open>urllib.parse.urldefrag\<close> (the pair of the URL without fragment and the fragment), and
  the order in which Python iterates over a \<^verbatim>\<open>set\<close>, given as a function that rearranges
  the elements listed in insertion order.
\<close>

record externals =
  make_tool :: "document \<Rightarrow> process"
  load_tool :: "string \<Rightarrow> process"
  urldefrag :: "string \<Rightarrow> string \<times> string"
  set_order :: "nodeid list \<Rightarrow> nodeid list"

text \<open>The exceptions the functions raise, as values.\<close>

datatype error =
    NotWorkflow
  | KeyError nodeid
  | AttributeError
  | CouldNotFindStep nodeid
  | StepNotFound string
  | ValueError
  | RecursionError

section \<open>The node registry\<close>

datatype kind = INPUT | OUTPUT | STEP

text \<open>\<^verbatim>\<open>class _Node(NamedTuple): up, down, type\<close>.\<close>

record node =
  up :: "nodeid list"
  down :: "nodeid list"
  ntype :: "kind option"

type_synonym registry = "(nodeid \<times> node) list"

text \<open>
  \<^verbatim>\<open>_declare_node\<close>. The registry is a Python dict: a lookup is \<open>map_of\<close>, an
  assignment \<^verbatim>\<open>nodes[k] = v\<close> is \<open>AList.update\<close> (an existing key keeps its position,
  a new one goes last). The replaced tuple shares the \<^verbatim>\<open>up\<close> and \<^verbatim>\<open>down\<close> lists of the
  old one.
\<close>

definition declare_node :: "registry \<Rightarrow> nodeid \<Rightarrow> kind option \<Rightarrow> registry" where
  "declare_node nodes nodeid tp =
     (case map_of nodes nodeid of
        Some n \<Rightarrow>
          (if ntype n = None then AList.update nodeid \<lparr>up = up n, down = down n, ntype = tp\<rparr> nodes
           else nodes)
      | None \<Rightarrow> AList.update nodeid \<lparr>up = [], down = [], ntype = tp\<rparr> nodes)"

text \<open>
  \<^verbatim>\<open>nodes[k].up.append(x)\<close> and \<^verbatim>\<open>nodes[k].down.append(x)\<close>. In the source the key was
  declared just before each of these statements, so the lookup cannot fail there
  (lemma \<open>declare_node_present\<close>); on a missing key the model leaves the registry as it is.
\<close>

definition append_up :: "registry \<Rightarrow> nodeid \<Rightarrow> nodeid \<Rightarrow> registry" where
  "append_up nodes k x =
     (case map_of nodes k of
        Some n \<Rightarrow> AList.update k (n\<lparr>up := up n @ [x]\<rparr>) nodes
      | None \<Rightarrow> nodes)"

definition append_down :: "registry \<Rightarrow> nodeid \<Rightarrow> nodeid \<Rightarrow> registry" where
  "append_down nodes k x =
     (case map_of nodes k of
        Some n \<Rightarrow> AList.update k (n\<lparr>down := down n @ [x]\<rparr>) nodes
      | None \<Rightarrow> nodes)"

section \<open>Building the registry (the first part of \<^verbatim>\<open>get_subgraph\<close>)\<close>

text \<open>\<^verbatim>\<open>for inp in tool.tool["inputs"]: _declare_node(nodes, inp["id"], INPUT)\<close>\<close>

definition declare_input :: "registry \<Rightarrow> input_rec \<Rightarrow> registry" where
  "declare_input nodes inp = declare_node nodes (Name (in_id inp)) (Some INPUT)"

text \<open>\<^verbatim>\<open>aslist(out.get("outputSource", CommentedSeq))\<close>\<close>

definition output_sources :: "output_rec \<Rightarrow> nodeid list" where
  "output_sources out =
     (case out_outputSource out of
        None \<Rightarrow> [CommentedSeqClass]
      | Some s \<Rightarrow> map Name (aslist s))"

text \<open>
  The body of the loop over the \<^verbatim>\<open>outputSource\<close> entries: the entry is upstream of the
  output, the output downstream of the entry.
\<close>

definition link_output_source :: "nodeid \<Rightarrow> registry \<Rightarrow> nodeid \<Rightarrow> registry" where
  "link_output_source oid nodes i =
     append_down (declare_node (append_up nodes oid i) i None) i oid"

definition declare_output :: "registry \<Rightarrow> output_rec \<Rightarrow> registry" where
  "declare_output nodes out =
     foldl (link_output_source (Name (out_id out)))
       (declare_node nodes (Name (out_id out)) (Some OUTPUT)) (output_sources out)"

text \<open>
  The sources of a step, in order: ports without \<^verbatim>\<open>source\<close> are skipped, the others give
  \<^verbatim>\<open>aslist(i["source"])\<close>.
\<close>

definition step_sources :: "step \<Rightarrow> string list" where
  "step_sources st =
     concat (map (\<lambda>i. case port_source i of None \<Rightarrow> [] | Some s \<Rightarrow> aslist s) (step_in st))"

definition link_step_source :: "nodeid \<Rightarrow> registry \<Rightarrow> nodeid \<Rightarrow> registry" where
  "link_step_source sid nodes src =
     append_down (declare_node (append_up nodes sid src) src None) src sid"

definition link_step_out :: "nodeid \<Rightarrow> registry \<Rightarrow> nodeid \<Rightarrow> registry" where
  "link_step_out sid nodes out =
     append_up (declare_node (append_down nodes sid out) out None) out sid"

definition declare_step :: "registry \<Rightarrow> step \<Rightarrow> registry" where
  "declare_step nodes st =
     foldl (link_step_out (Name (step_id st)))
       (foldl (link_step_source (Name (step_id st)))
          (declare_node nodes (Name (step_id st)) (Some STEP))
          (map Name (step_sources st)))
       (map (\<lambda>out. Name (outport_id out)) (step_out st))"

definition build_nodes :: "document \<Rightarrow> registry" where
  "build_nodes d =
     foldl declare_step
       (foldl declare_output (foldl declare_input [] (doc_inputs d)) (doc_outputs d))
       (doc_steps d)"

section \<open>The reachability walk\<close>

datatype direction = UP | DOWN

text \<open>
  \<^verbatim>\<open>_subgraph_visit\<close>, with the loop over the successors as \<open>subgraph_visit_all\<close>. The
  visited set is kept as the list of its elements in insertion order. A missing registry
  key raises \<^verbatim>\<open>KeyError\<close>, after the node was added to the set.
\<close>

function subgraph_visit :: "nodeid \<Rightarrow> registry \<Rightarrow> nodeid list \<Rightarrow> direction \<Rightarrow> error + nodeid list"
  and subgraph_visit_all :: "nodeid list \<Rightarrow> registry \<Rightarrow> nodeid list \<Rightarrow> direction \<Rightarrow> error + nodeid list"
where
  "subgraph_visit current nodes visited direction =
     (if current \<in> set visited then Inr visited
      else (case map_of nodes current of
              None \<Rightarrow> Inl (KeyError current)
            | Some n \<Rightarrow>
                subgraph_visit_all (case direction of DOWN \<Rightarrow> down n | UP \<Rightarrow> up n)
                  nodes (visited @ [current]) direction))"
| "subgraph_visit_all [] nodes visited direction = Inr visited"
| "subgraph_visit_all (c # cs) nodes visited direction =
     (case subgraph_visit c nodes visited direction of
        Inl e \<Rightarrow> Inl e
      | Inr visited' \<Rightarrow> subgraph_visit_all cs nodes visited' direction)"
  by pat_completeness auto

text \<open>
  The visited set only grows. This is what makes the nested recursion terminate: the
  number of registry keys outside the set decreases whenever a node is expanded.
\<close>

lemma subgraph_visit_dom_mono:
  "subgraph_visit_subgraph_visit_all_dom (Inl (c, nodes, vis, d)) \<Longrightarrow>
     subgraph_visit c nodes vis d = Inr vis' \<Longrightarrow> set vis \<subseteq> set vis'"
  "subgraph_visit_subgraph_visit_all_dom (Inr (cs, nodes, vis, d)) \<Longrightarrow>
     subgraph_visit_all cs nodes vis d = Inr vis' \<Longrightarrow> set vis \<subseteq> set vis'"
proof (induction c nodes vis d and cs nodes vis d arbitrary: vis' and vis'
    rule: subgraph_visit_subgraph_visit_all.pinduct)
  case (1 current nodes visited direction)
  then show ?case
    by (auto simp: subgraph_visit.psimps split: if_splits option.splits)
next
  case (2 nodes visited direction)
  then show ?case by (simp add: subgraph_visit_all.psimps)
next
  case (3 c cs nodes visited direction)
  then show ?case
    by (auto simp: subgraph_visit_all.psimps split: sum.splits)
qed

termination subgraph_visit
proof (relation "inv_image (less_than <*lex*> less_than)
    (\<lambda>x. case x of
       Inl (c, nodes, vis, d) \<Rightarrow> (card (fst ` set nodes - set vis), 0)
     | Inr (cs, nodes, vis, d) \<Rightarrow> (card (fst ` set nodes - set vis), Suc (length cs)))", goal_cases)
  case 1
  show ?case by (intro wf_inv_image wf_lex_prod wf_less_than)
next
  case (2 current nodes visited direction n)
  have "current \<in> fst ` set nodes"
    using 2(2) by (force dest: map_of_SomeD)
  then have "card (fst ` set nodes - set (visited @ [current])) < card (fst ` set nodes - set visited)"
    using 2(1) by (intro psubset_card_mono) auto
  then show ?case by simp
next
  case (3 c cs nodes visited direction)
  then show ?case by simp
next
  case (4 c cs nodes visited direction vis')
  then have "set visited \<subseteq> set vis'" by (rule subgraph_visit_dom_mono(1)[rotated 1])
  then have "card (fst ` set nodes - set vis') \<le> card (fst ` set nodes - set visited)"
    by (intro card_mono) auto
  then show ?case by auto
qed

declare subgraph_visit.simps [simp del]

text \<open>
  The loop over the roots: a root of kind \<^verbatim>\<open>OUTPUT\<close> is walked upstream, any other
  downstream; \<^verbatim>\<open>nodes[r]\<close> raises \<^verbatim>\<open>KeyError\<close> for a root that is not a registry key.
  All walks share the one set \<^verbatim>\<open>visited_down\<close>.
\<close>

fun visit_roots :: "registry \<Rightarrow> string list \<Rightarrow> nodeid list \<Rightarrow> error + nodeid list" where
  "visit_roots nodes [] visited_down = Inr visited_down"
| "visit_roots nodes (r # roots) visited_down =
     (case map_of nodes (Name r) of
        None \<Rightarrow> Inl (KeyError (Name r))
      | Some n \<Rightarrow>
          (case subgraph_visit (Name r) nodes visited_down
                  (if ntype n = Some OUTPUT then UP else DOWN) of
             Inl e \<Rightarrow> Inl e
           | Inr visited_down' \<Rightarrow> visit_roots nodes roots visited_down'))"

section \<open>Strings\<close>

text \<open>\<^verbatim>\<open>s.startswith(p)\<close>\<close>

definition startswith :: "string \<Rightarrow> string \<Rightarrow> bool" where
  "startswith s p = (take (length p) s = p)"

text \<open>\<^verbatim>\<open>u in s\<close> for two strings: \<open>u\<close> occurs in \<open>s\<close> as a contiguous substring.\<close>

fun str_contains :: "string \<Rightarrow> string \<Rightarrow> bool" where
  "str_contains [] u = (u = [])"
| "str_contains (c # s) u = (startswith (c # s) u \<or> str_contains s u)"

text \<open>\<^verbatim>\<open>s.replace("/", "_")\<close>\<close>

definition replace_slash :: "string \<Rightarrow> string" where
  "replace_slash s = map (\<lambda>c. if c = CHR ''/'' then CHR ''_'' else c) s"

text \<open>\<^verbatim>\<open>s.split(c)\<close> with an explicit separator: never empty, \<^verbatim>\<open>"".split(c) == [""]\<close>.\<close>

fun split_on :: "char \<Rightarrow> string \<Rightarrow> string list" where
  "split_on c [] = [[]]"
| "split_on c (x # xs) =
     (if x = c then [] # split_on c xs
      else (case split_on c xs of
              w # ws \<Rightarrow> (x # w) # ws
            | [] \<Rightarrow> [[x]]))"

section \<open>\<^verbatim>\<open>find_step\<close>\<close>

text \<open>
  \<^verbatim>\<open>adj_stepid = f"{prefix}{sep}{suffix}"\<close> with \<^verbatim>\<open>prefix = process.tool["id"]\<close> and
  \<^verbatim>\<open>sep = "/" if "#" in prefix else "#"\<close>.
\<close>

definition adj_stepid :: "workflow \<Rightarrow> string \<Rightarrow> string" where
  "adj_stepid process suffix =
     (let prefix = doc_id (wf_tool process);
          sep = (if CHR ''#'' \<in> set prefix then ''/'' else ''#'')
      in prefix @ sep @ suffix)"

text \<open>
  \<^verbatim>\<open>find_step\<close> returns the pair \<^verbatim>\<open>(st.tool, st)\<close> or \<^verbatim>\<open>(None, None)\<close>; a step object is
  modelled by its \<^verbatim>\<open>tool\<close> mapping, so the result is \<open>Some st\<close> or \<open>None\<close>. The recursion
  follows what \<^verbatim>\<open>make_tool\<close> and \<^verbatim>\<open>load_tool\<close> return and need not end: the outer
  \<open>option\<close> is \<open>None\<close> when it does not (Python then raises \<^verbatim>\<open>RecursionError\<close>). The loop over
  \<^verbatim>\<open>steps\<close> is the recursion on the rest of the list.
\<close>

partial_function (option) find_step :: "externals \<Rightarrow> step list \<Rightarrow> string \<Rightarrow> step option option" where
  "find_step ext steps stepid =
     (case steps of
        [] \<Rightarrow> Some None
      | st # rest \<Rightarrow>
          if step_id st = stepid then Some (Some st)
          else if startswith stepid (step_id st) then
            (case step_run st of
               RunWorkflow w \<Rightarrow>
                 Option.bind (find_step ext (wf_steps w) (drop (length (step_id st) + 1) stepid))
                   (\<lambda>result. case result of
                      Some r \<Rightarrow> Some (Some r)
                    | None \<Rightarrow> find_step ext rest stepid)
             | RunMap m \<Rightarrow>
                 if doc_class m = ''Workflow'' then
                   (case make_tool ext m of
                      PWorkflow process \<Rightarrow>
                        Option.bind
                          (find_step ext (wf_steps process)
                             (adj_stepid process (drop (length (step_id st) + 1) stepid)))
                          (\<lambda>result2. case result2 of
                             Some r \<Rightarrow> Some (Some r)
                           | None \<Rightarrow> find_step ext rest stepid)
                    | POther \<Rightarrow> find_step ext rest stepid)
                 else find_step ext rest stepid
             | RunStr s \<Rightarrow>
                 (case load_tool ext s of
                    PWorkflow process \<Rightarrow>
                      Option.bind
                        (find_step ext (wf_steps process)
                           (adj_stepid process (drop (length (step_id st) + 1) stepid)))
                        (\<lambda>result3. case result3 of
                           Some r \<Rightarrow> Some (Some r)
                         | None \<Rightarrow> find_step ext rest stepid)
                  | POther \<Rightarrow> find_step ext rest stepid)
             | RunProcess \<Rightarrow> find_step ext rest stepid)
          else find_step ext rest stepid)"

declare find_step.simps [code]

section \<open>\<^verbatim>\<open>get_subgraph\<close>\<close>

text \<open>A loop whose body may raise: the first error ends it.\<close>

fun fold_err :: "('s \<Rightarrow> 'a \<Rightarrow> error + 's) \<Rightarrow> 'a list \<Rightarrow> 's \<Rightarrow> error + 's" where
  "fold_err f [] s = Inr s"
| "fold_err f (x # xs) s =
     (case f s x of
        Inl e \<Rightarrow> Inl e
      | Inr s' \<Rightarrow> fold_err f xs s')"

text \<open>
  The rewire table \<^verbatim>\<open>rewire: dict[str, tuple[str, CWLObjectType]]\<close>, in insertion order.
\<close>

type_synonym rewire_table = "(string \<times> (string \<times> string)) list"

text \<open>
  \<^verbatim>\<open>"source" in inp and u in inp["source"]\<close>: on a list \<^verbatim>\<open>in\<close> is membership, on a string
  it is the substring test.
\<close>

definition source_contains :: "source \<Rightarrow> string \<Rightarrow> bool" where
  "source_contains src u =
     (case src of
        Scalar s \<Rightarrow> str_contains s u
      | Multi xs \<Rightarrow> u \<in> set xs)"

text \<open>
  The loop over \<^verbatim>\<open>wfstep["inputs"]\<close> with its \<^verbatim>\<open>break\<close>: the type of the first port whose
  source contains \<open>u\<close>, if any; \<^verbatim>\<open>inp["type"]\<close> raises \<^verbatim>\<open>KeyError\<close> when that port has no
  type.
\<close>

fun scan_inputs :: "string \<Rightarrow> inport list \<Rightarrow> error + string option" where
  "scan_inputs u [] = Inr None"
| "scan_inputs u (inp # rest) =
     (case port_source inp of
        None \<Rightarrow> scan_inputs u rest
      | Some src \<Rightarrow>
          if source_contains src u then
            (case port_type inp of
               None \<Rightarrow> Inl (KeyError (Name ''type''))
             | Some t \<Rightarrow> Inr (Some t))
          else scan_inputs u rest)"

text \<open>\<^verbatim>\<open>df = urllib.parse.urldefrag(u); rn = str(df[0] + "#" + df[1].replace("/", "_"))\<close>\<close>

definition rewire_name :: "externals \<Rightarrow> string \<Rightarrow> string" where
  "rewire_name ext u = (let df = urldefrag ext u in fst df @ ''#'' @ replace_slash (snd df))"

text \<open>
  The body of \<^verbatim>\<open>for u in nodes[v].up\<close>, on the state \<open>(visited, rewire)\<close>. \<open>nv\<close> is
  \<^verbatim>\<open>nodes[v]\<close>. \<^verbatim>\<open>urldefrag\<close> of the class object raises \<^verbatim>\<open>AttributeError\<close>; so does
  \<^verbatim>\<open>stepid.startswith\<close> inside \<^verbatim>\<open>find_step\<close>, which is reached when there is a step.
\<close>

definition rewire_up ::
  "externals \<Rightarrow> workflow \<Rightarrow> registry \<Rightarrow> nodeid list \<Rightarrow> nodeid \<Rightarrow> node \<Rightarrow>
   nodeid list \<times> rewire_table \<Rightarrow> nodeid \<Rightarrow> error + nodeid list \<times> rewire_table" where
  "rewire_up ext tool nodes visited_down v nv st u =
     (if u \<in> set visited_down then Inr st
      else (case map_of nodes u of
              None \<Rightarrow> Inl (KeyError u)
            | Some nu \<Rightarrow>
                if ntype nu = Some INPUT then Inr (List.insert u (fst st), snd st)
                else (case u of
                        CommentedSeqClass \<Rightarrow> Inl AttributeError
                      | Name us \<Rightarrow>
                          let rn = rewire_name ext us in
                          if ntype nv = Some STEP then
                            (case v of
                               CommentedSeqClass \<Rightarrow>
                                 if wf_steps tool = [] then Inl (CouldNotFindStep v)
                                 else Inl AttributeError
                             | Name vs \<Rightarrow>
                                 (case find_step ext (wf_steps tool) vs of
                                    None \<Rightarrow> Inl RecursionError
                                  | Some None \<Rightarrow> Inl (CouldNotFindStep v)
                                  | Some (Some wfstep) \<Rightarrow>
                                      (case scan_inputs us (step_inputs wfstep) of
                                         Inl e \<Rightarrow> Inl e
                                       | Inr None \<Rightarrow> Inr st
                                       | Inr (Some t) \<Rightarrow>
                                           Inr (fst st, AList.update us (rn, t) (snd st)))))
                          else Inr st)))"

text \<open>The body of \<^verbatim>\<open>for v in visited_down\<close>.\<close>

definition rewire_node ::
  "externals \<Rightarrow> workflow \<Rightarrow> registry \<Rightarrow> nodeid list \<Rightarrow>
   nodeid list \<times> rewire_table \<Rightarrow> nodeid \<Rightarrow> error + nodeid list \<times> rewire_table" where
  "rewire_node ext tool nodes visited_down st v =
     (case map_of nodes v of
        None \<Rightarrow> Inl (KeyError v)
      | Some nv \<Rightarrow>
          if ntype nv = Some STEP \<or> ntype nv = Some OUTPUT then
            fold_err (rewire_up ext tool nodes visited_down v nv) (up nv)
              (List.insert v (fst st), snd st)
          else Inr (List.insert v (fst st), snd st))"

text \<open>
  The second loop of \<^verbatim>\<open>get_subgraph\<close>: Python iterates over the set \<^verbatim>\<open>visited_down\<close> in
  an order of its own, \<open>set_order ext visited_down\<close>.
\<close>

definition rewire_pass ::
  "externals \<Rightarrow> workflow \<Rightarrow> registry \<Rightarrow> nodeid list \<Rightarrow> error + nodeid list \<times> rewire_table" where
  "rewire_pass ext tool nodes visited_down =
     fold_err (rewire_node ext tool nodes visited_down) (set_order ext visited_down) ([], [])"

text \<open>
  The rewriting of one \<^verbatim>\<open>in\<close> port: a list source becomes
  \<^verbatim>\<open>[rewire[s][0] for s in in_port["source"] if s in rewire]\<close>, a scalar source in the table
  is replaced, anything else stays.
\<close>

definition rewire_port :: "rewire_table \<Rightarrow> inport \<Rightarrow> inport" where
  "rewire_port rewire in_port =
     (case port_source in_port of
        None \<Rightarrow> in_port
      | Some (Multi xs) \<Rightarrow>
          in_port\<lparr>port_source :=
            Some (Multi (concat (map (\<lambda>s. case map_of rewire s of
                                            None \<Rightarrow> []
                                          | Some rv \<Rightarrow> [fst rv]) xs)))\<rparr>
      | Some (Scalar s) \<Rightarrow>
          (case map_of rewire s of
             None \<Rightarrow> in_port
           | Some rv \<Rightarrow> in_port\<lparr>port_source := Some (Scalar (fst rv))\<rparr>))"

definition rewire_step :: "rewire_table \<Rightarrow> step \<Rightarrow> step" where
  "rewire_step rewire i =
     Step (step_id i) (map (rewire_port rewire) (step_in i)) (step_out i) (step_run i)
       (step_inputs i)"

text \<open>
  The assembly of the returned document: \<^verbatim>\<open>steps\<close>, \<^verbatim>\<open>inputs\<close> and \<^verbatim>\<open>outputs\<close> keep the
  records whose \<^verbatim>\<open>id\<close> is in \<^verbatim>\<open>visited\<close>, every other field is copied, and one input per
  value of the rewire table is appended.
\<close>

definition new_input :: "string \<times> string \<Rightarrow> input_rec" where
  "new_input rv = \<lparr>in_id = fst rv, in_type = snd rv, in_default = None\<rparr>"

definition extracted :: "document \<Rightarrow> nodeid list \<Rightarrow> rewire_table \<Rightarrow> document" where
  "extracted d visited rewire =
     Document (doc_class d) (doc_id d)
       (filter (\<lambda>i. Name (in_id i) \<in> set visited) (doc_inputs d) @ map (new_input \<circ> snd) rewire)
       (filter (\<lambda>i. Name (out_id i) \<in> set visited) (doc_outputs d))
       (map (rewire_step rewire) (filter (\<lambda>i. Name (step_id i) \<in> set visited) (doc_steps d)))
       (doc_other d)"

text \<open>
  \<^verbatim>\<open>get_subgraph\<close> up to the assembly: the class check, the registry, the walk from the
  roots and the rewiring loop, giving the final \<^verbatim>\<open>visited\<close> set and the \<^verbatim>\<open>rewire\<close> table.
\<close>

definition visited_and_rewire ::
  "externals \<Rightarrow> string list \<Rightarrow> workflow \<Rightarrow> error + nodeid list \<times> rewire_table" where
  "visited_and_rewire ext roots tool =
     (if doc_class (wf_tool tool) \<noteq> ''Workflow'' then Inl NotWorkflow
      else
        let nodes = build_nodes (wf_tool tool) in
        (case visit_roots nodes roots [] of
           Inl e \<Rightarrow> Inl e
         | Inr visited_down \<Rightarrow> rewire_pass ext tool nodes visited_down))"

definition get_subgraph :: "externals \<Rightarrow> string list \<Rightarrow> workflow \<Rightarrow> error + document" where
  "get_subgraph ext roots tool =
     (case visited_and_rewire ext roots tool of
        Inl e \<Rightarrow> Inl e
      | Inr (visited, rewire) \<Rightarrow> Inr (extracted (wf_tool tool) visited rewire))"

section \<open>\<^verbatim>\<open>get_step\<close>\<close>

text \<open>\<^verbatim>\<open>s.split("#")[-1].split("/")[-1]\<close>\<close>

definition local_name :: "string \<Rightarrow> string" where
  "local_name s = last (split_on CHR ''/'' (last (split_on CHR ''#'' s)))"

text \<open>
  The loop over \<^verbatim>\<open>step["in"]\<close>: the new top-level input, and the port with its
  \<^verbatim>\<open>source\<close> set and its \<^verbatim>\<open>linkMerge\<close> deleted.
\<close>

definition step_input :: "inport \<Rightarrow> input_rec" where
  "step_input in_port =
     \<lparr>in_id = ''#'' @ local_name (port_id in_port), in_type = ''Any'',
      in_default = port_default in_port\<rparr>"

definition step_port :: "inport \<Rightarrow> inport" where
  "step_port in_port =
     in_port\<lparr>port_source := Some (Scalar (''#'' @ local_name (port_id in_port))),
             port_linkMerge := None\<rparr>"

definition step_output :: "string \<Rightarrow> string \<Rightarrow> outport \<Rightarrow> output_rec" where
  "step_output new_id step_name outport =
     (let name = local_name (outport_id outport) in
      \<lparr>out_id = name, out_type = ''Any'',
       out_outputSource = Some (Scalar (new_id @ ''#'' @ step_name @ ''/'' @ name))\<rparr>)"

text \<open>
  \<^verbatim>\<open>new_id, step_name = step["id"].rsplit("#")\<close> raises \<^verbatim>\<open>ValueError\<close> unless the split has
  exactly two parts. \<^verbatim>\<open>cwlVersion\<close> is a key of \<open>doc_other\<close>; when it is absent it is taken
  from \<^verbatim>\<open>tool.metadata\<close>, which raises \<^verbatim>\<open>KeyError\<close> when it is absent there too.
\<close>

definition get_step :: "externals \<Rightarrow> workflow \<Rightarrow> string \<Rightarrow> error + document" where
  "get_step ext tool sid =
     (case find_step ext (wf_steps tool) sid of
        None \<Rightarrow> Inl RecursionError
      | Some None \<Rightarrow> Inl (StepNotFound sid)
      | Some (Some step) \<Rightarrow>
          (case split_on CHR ''#'' (step_id step) of
             [new_id, step_name] \<Rightarrow>
               let steps = [Step (step_id step) (map step_port (step_in step)) (step_out step)
                              (step_run step) (step_inputs step)];
                   inputs = map step_input (step_in step);
                   outputs = map (step_output new_id step_name) (step_out step);
                   other = doc_other (wf_tool tool)
               in (case map_of other ''cwlVersion'' of
                     Some v \<Rightarrow>
                       Inr (Document (doc_class (wf_tool tool)) new_id inputs outputs steps other)
                   | None \<Rightarrow>
                       (case map_of (wf_metadata tool) ''cwlVersion'' of
                          None \<Rightarrow> Inl (KeyError (Name ''cwlVersion''))
                        | Some v \<Rightarrow>
                            Inr (Document (doc_class (wf_tool tool)) new_id inputs outputs steps
                                   (other @ [(''cwlVersion'', v)]))))
           | _ \<Rightarrow> Inl ValueError))"

section \<open>Sequences of declarations\<close>

text \<open>A sequence of \<^verbatim>\<open>_declare_node\<close> calls on one registry.\<close>

definition declare_nodes :: "registry \<Rightarrow> (nodeid \<times> kind option) list \<Rightarrow> registry" where
  "declare_nodes nodes ds = foldl (\<lambda>ns d. declare_node ns (fst d) (snd d)) nodes ds"

section \<open>Ports that mention an identifier\<close>

text \<open>
  A port mentions \<open>u\<close> when it has a source in which \<open>u\<close> occurs: as a substring of a
  scalar source, as an element of a list source.
\<close>

definition port_mentions :: "string \<Rightarrow> inport \<Rightarrow> bool" where
  "port_mentions u p =
     (case port_source p of
        None \<Rightarrow> False
      | Some (Scalar s) \<Rightarrow> (\<exists>a b. s = a @ u @ b)
      | Some (Multi xs) \<Rightarrow> u \<in> set xs)"


section \<open>The trailing segment of an identifier\<close>

text \<open>
  What follows the last \<^verbatim>\<open>#\<close> or \<^verbatim>\<open>/\<close> of an identifier (all of it when it has neither).
\<close>

definition trailing_segment :: "string \<Rightarrow> string" where
  "trailing_segment s = rev (takeWhile (\<lambda>c. c \<noteq> CHR ''#'' \<and> c \<noteq> CHR ''/'') (rev s))"


section \<open>Notions used in the statements\<close>

text \<open>
  \<open>reg_le a b\<close>: registry \<open>b\<close> has every key of \<open>a\<close>, with at least the same edges and the
  same kind wherever \<open>a\<close> has one. \<open>closed_registry\<close>: every edge points to a key.
  \<open>node_ids\<close>: the identifiers a document declares or refers to. \<open>unvisited_edges\<close>: the
  edges of one direction between nodes outside a given set. \<open>declared_or_referenced\<close>: the
  identifier is an input, output or step of the document, or occurs in a \<^verbatim>\<open>source\<close>, an
  \<^verbatim>\<open>outputSource\<close> or a step's \<^verbatim>\<open>out\<close> list.
\<close>

definition reg_le :: "registry \<Rightarrow> registry \<Rightarrow> bool" where
  "reg_le a b \<longleftrightarrow>
     (\<forall>k n. map_of a k = Some n \<longrightarrow>
        (\<exists>n'. map_of b k = Some n' \<and> set (up n) \<subseteq> set (up n') \<and> set (down n) \<subseteq> set (down n') \<and>
              (ntype n \<noteq> None \<longrightarrow> ntype n' = ntype n)))"

definition closed_registry :: "registry \<Rightarrow> bool" where
  "closed_registry nodes \<longleftrightarrow>
     (\<forall>k n. map_of nodes k = Some n \<longrightarrow> set (up n) \<union> set (down n) \<subseteq> dom (map_of nodes))"

definition node_ids :: "document \<Rightarrow> nodeid set" where
  "node_ids d =
     Name ` in_id ` set (doc_inputs d) \<union>
     Name ` out_id ` set (doc_outputs d) \<union>
     (\<Union>out \<in> set (doc_outputs d). set (output_sources out)) \<union>
     Name ` step_id ` set (doc_steps d) \<union>
     (\<Union>st \<in> set (doc_steps d). Name ` set (step_sources st)) \<union>
     (\<Union>st \<in> set (doc_steps d). Name ` outport_id ` set (step_out st))"

definition successors :: "direction \<Rightarrow> node \<Rightarrow> nodeid list" where
  "successors d n = (case d of DOWN \<Rightarrow> down n | UP \<Rightarrow> up n)"

definition unvisited_edges :: "registry \<Rightarrow> direction \<Rightarrow> nodeid set \<Rightarrow> (nodeid \<times> nodeid) set" where
  "unvisited_edges nodes d V =
     {(x, y). x \<notin> V \<and> y \<notin> V \<and> (\<exists>n. map_of nodes x = Some n \<and> y \<in> set (successors d n))}"

definition declared_or_referenced :: "document \<Rightarrow> string \<Rightarrow> bool" where
  "declared_or_referenced d r \<longleftrightarrow>
     r \<in> in_id ` set (doc_inputs d) \<or> r \<in> out_id ` set (doc_outputs d) \<or>
     r \<in> step_id ` set (doc_steps d) \<or>
     (\<exists>st \<in> set (doc_steps d). \<exists>p \<in> set (step_in st). \<exists>src.
        port_source p = Some src \<and> r \<in> set (aslist src)) \<or>
     (\<exists>out \<in> set (doc_outputs d). \<exists>src. out_outputSource out = Some src \<and> r \<in> set (aslist src)) \<or>
     (\<exists>st \<in> set (doc_steps d). r \<in> outport_id ` set (step_out st))"


text \<open>\<open>input_kinds_in I nodes\<close>: only keys in \<open>I\<close> have the kind \<^verbatim>\<open>INPUT\<close>.\<close>

definition input_kinds_in :: "nodeid set \<Rightarrow> registry \<Rightarrow> bool" where
  "input_kinds_in I nodes \<longleftrightarrow> (\<forall>k n. map_of nodes k = Some n \<and> ntype n = Some INPUT \<longrightarrow> k \<in> I)"


text \<open>
  For the rewiring loop. \<open>grows a b\<close>: state \<open>b\<close> has every visited node and every rewire
  key of state \<open>a\<close>. \<open>rewire_ok\<close>: the keys of the table are distinct and every entry's
  new identifier is the one made from its key. \<open>reached_or_input\<close>: every visited node was
  reached by the walk or has the kind \<^verbatim>\<open>INPUT\<close>.
\<close>

definition grows :: "nodeid list \<times> rewire_table \<Rightarrow> nodeid list \<times> rewire_table \<Rightarrow> bool" where
  "grows a b \<longleftrightarrow> set (fst a) \<subseteq> set (fst b) \<and> dom (map_of (snd a)) \<subseteq> dom (map_of (snd b))"


definition reached_or_input :: "registry \<Rightarrow> nodeid list \<Rightarrow> nodeid list \<times> rewire_table \<Rightarrow> bool" where
  "reached_or_input nodes vd st \<longleftrightarrow>
     (\<forall>x \<in> set (fst st). x \<in> set vd \<or> (\<exists>n. map_of nodes x = Some n \<and> ntype n = Some INPUT))"


section \<open>Example workflows\<close>

text \<open>
  Concrete collaborators for the examples: no external tool is a workflow, the fragment
  of an identifier is what follows its first \<^verbatim>\<open>#\<close> (what \<^verbatim>\<open>urldefrag\<close> gives on
  identifiers of the form \<^verbatim>\<open>wf#a/b\<close>), and the set is iterated in insertion order.
\<close>

definition urldefrag_simple :: "string \<Rightarrow> string \<times> string" where
  "urldefrag_simple u =
     (takeWhile (\<lambda>c. c \<noteq> CHR ''#'') u, drop 1 (dropWhile (\<lambda>c. c \<noteq> CHR ''#'') u))"

definition ext0 :: externals where
  "ext0 = \<lparr>make_tool = (\<lambda>m. POther), load_tool = (\<lambda>s. POther),
           urldefrag = urldefrag_simple, set_order = (\<lambda>xs. xs)\<rparr>"

definition port :: "string \<Rightarrow> source option \<Rightarrow> string option \<Rightarrow> inport" where
  "port i s t =
     \<lparr>port_id = i, port_source = s, port_linkMerge = None, port_default = None, port_type = t\<rparr>"

text \<open>A step running a tool, whose step object carries the same ports in \<^verbatim>\<open>inputs\<close>.\<close>

definition tool_step :: "string \<Rightarrow> inport list \<Rightarrow> string list \<Rightarrow> step" where
  "tool_step i ins outs = Step i ins (map OutStr outs) RunProcess ins"

definition workflow_of ::
  "input_rec list \<Rightarrow> output_rec list \<Rightarrow> step list \<Rightarrow> workflow" where
  "workflow_of ins outs steps =
     Workflow (Document ''Workflow'' ''wf'' ins outs steps [(''cwlVersion'', ''v1.2'')]) steps []"

text \<open>The linear pipeline \<open>I \<rightarrow> A \<rightarrow> B \<rightarrow> O\<close>.\<close>

definition wf_linear :: workflow where
  "wf_linear =
     workflow_of [\<lparr>in_id = ''wf#I'', in_type = ''File'', in_default = None\<rparr>]
       [\<lparr>out_id = ''wf#O'', out_type = ''File'', out_outputSource = Some (Scalar ''wf#B/out'')\<rparr>]
       [tool_step ''wf#A'' [port ''wf#A/x'' (Some (Scalar ''wf#I'')) (Some ''File'')] [''wf#A/out''],
        tool_step ''wf#B'' [port ''wf#B/x'' (Some (Scalar ''wf#A/out'')) (Some ''int'')] [''wf#B/out'']]"

text \<open>
  A step with a list source naming a step output and a workflow input, a scalar source and
  a port without source.
\<close>

definition wf_merge :: workflow where
  "wf_merge =
     workflow_of [\<lparr>in_id = ''wf#I'', in_type = ''File'', in_default = None\<rparr>]
       [\<lparr>out_id = ''wf#O'', out_type = ''File'', out_outputSource = Some (Scalar ''wf#B/out'')\<rparr>]
       [tool_step ''wf#A'' [port ''wf#A/x'' (Some (Scalar ''wf#I'')) (Some ''File'')] [''wf#A/out''],
        tool_step ''wf#B''
          [port ''wf#B/x'' (Some (Multi [''wf#A/out'', ''wf#I''])) (Some ''File[]''),
           port ''wf#B/y'' (Some (Scalar ''wf#I'')) (Some ''File''),
           port ''wf#B/z'' None (Some ''int'')]
          [''wf#B/out'']]"


text \<open>
  Step \<open>B\<close> reads \<^verbatim>\<open>wf#A/out2\<close> on its first port and \<^verbatim>\<open>wf#A/out\<close>, a prefix of it, on
  its second.
\<close>

definition wf_prefix :: workflow where
  "wf_prefix =
     workflow_of []
       [\<lparr>out_id = ''wf#O'', out_type = ''File'', out_outputSource = Some (Scalar ''wf#B/out'')\<rparr>]
       [tool_step ''wf#A'' [] [''wf#A/out'', ''wf#A/out2''],
        tool_step ''wf#B''
          [port ''wf#B/x'' (Some (Scalar ''wf#A/out2'')) (Some ''string''),
           port ''wf#B/y'' (Some (Scalar ''wf#A/out'')) (Some ''int'')]
          [''wf#B/out'']]"


text \<open>
  An outer step \<^verbatim>\<open>wf#a\<close> running a live workflow with the one step \<^verbatim>\<open>b\<close>, and its
  sibling step \<^verbatim>\<open>wf#a_b\<close>.
\<close>

definition inner_b :: step where
  "inner_b = tool_step ''b'' [] [''b/out'']"

definition outer_a :: step where
  "outer_a = Step ''wf#a'' [] [OutStr ''wf#a/out'']
     (RunWorkflow (Workflow (Document ''Workflow'' ''inner'' [] [] [inner_b] []) [inner_b] [])) []"

definition sibling_a_b :: step where
  "sibling_a_b = tool_step ''wf#a_b'' [] [''wf#a_b/out'']"



text \<open>Steps whose identifiers have two \<^verbatim>\<open>#\<close>, and none.\<close>

definition wf_two_hashes :: workflow where
  "wf_two_hashes = workflow_of [] [] [tool_step ''wf#sub#s'' [] [], tool_step ''t'' [] []]"



section \<open>The registry: \<^verbatim>\<open>_declare_node\<close>\<close>

lemma map_of_declare_node:
  "map_of (declare_node nodes k tp) k' =
     (if k' = k then
        (case map_of nodes k of
           None \<Rightarrow> Some \<lparr>up = [], down = [], ntype = tp\<rparr>
         | Some n \<Rightarrow> if ntype n = None then Some \<lparr>up = up n, down = down n, ntype = tp\<rparr> else Some n)
      else map_of nodes k')"
  by (auto simp: declare_node_def update_conv' split: option.splits)

lemma declare_nodes_set_kind:
  "map_of nodes k = Some n \<Longrightarrow> ntype n = Some t \<Longrightarrow> map_of (declare_nodes nodes ds) k = Some n"
proof (induction ds arbitrary: nodes)
  case Nil
  then show ?case by (simp add: declare_nodes_def)
next
  case (Cons d ds)
  have "map_of (declare_node nodes (fst d) (snd d)) k = Some n"
    using Cons.prems by (auto simp: map_of_declare_node)
  from Cons.IH[OF this Cons.prems(2)] show ?case
    by (simp add: declare_nodes_def)
qed

text \<open>
  Claim C8. A node whose kind is set keeps it (and its whole tuple, edge lists included)
  through any later sequence of declarations, of this or of other identifiers; declaring a
  present node whose kind is unset gives the same \<^verbatim>\<open>up\<close> and \<^verbatim>\<open>down\<close> lists with the kind
  filled in.
\<close>

theorem declare_node_kind_never_overwritten:
  "(map_of nodes k = Some n \<and> ntype n = Some t \<longrightarrow>
      map_of (declare_nodes nodes ds) k = Some n) \<and>
   (map_of nodes k = Some n \<and> ntype n = None \<longrightarrow>
      map_of (declare_node nodes k tp) k = Some \<lparr>up = up n, down = down n, ntype = tp\<rparr>)"
  by (simp add: declare_nodes_set_kind map_of_declare_node)

theorem declare_node_kind_never_overwritten_witness:
  "map_of (declare_nodes [(Name ''a'', \<lparr>up = [Name ''x''], down = [Name ''y''], ntype = Some INPUT\<rparr>)]
       [(Name ''b'', None), (Name ''a'', Some STEP), (Name ''a'', None)]) (Name ''a'')
     = Some \<lparr>up = [Name ''x''], down = [Name ''y''], ntype = Some INPUT\<rparr> \<and>
   map_of (declare_node [(Name ''a'', \<lparr>up = [Name ''x''], down = [Name ''y''], ntype = None\<rparr>)]
       (Name ''a'') (Some STEP)) (Name ''a'')
     = Some \<lparr>up = [Name ''x''], down = [Name ''y''], ntype = Some STEP\<rparr>"
  using declare_node_kind_never_overwritten[of
      "[(Name ''a'', \<lparr>up = [Name ''x''], down = [Name ''y''], ntype = Some INPUT\<rparr>)]" "Name ''a''"
      "\<lparr>up = [Name ''x''], down = [Name ''y''], ntype = Some INPUT\<rparr>" INPUT
      "[(Name ''b'', None), (Name ''a'', Some STEP), (Name ''a'', None)]" "Some STEP"]
    declare_node_kind_never_overwritten[of
      "[(Name ''a'', \<lparr>up = [Name ''x''], down = [Name ''y''], ntype = None\<rparr>)]" "Name ''a''"
      "\<lparr>up = [Name ''x''], down = [Name ''y''], ntype = None\<rparr>" INPUT "[]" "Some STEP"]
  by simp

section \<open>Strings\<close>

lemma startswith_iff: "startswith s p \<longleftrightarrow> (\<exists>b. s = p @ b)"
  unfolding startswith_def
  by (metis append_eq_conv_conj append_take_drop_id)

lemma str_contains_iff: "str_contains s u \<longleftrightarrow> (\<exists>a b. s = a @ u @ b)"
proof (induction s)
  case Nil
  then show ?case by auto
next
  case (Cons c s)
  show ?case
  proof
    assume "str_contains (c # s) u"
    then consider "startswith (c # s) u" | "str_contains s u" by auto
    then show "\<exists>a b. c # s = a @ u @ b"
    proof cases
      case 1
      then obtain b where "c # s = u @ b" by (auto simp: startswith_iff)
      then have "c # s = [] @ u @ b" by simp
      then show ?thesis by blast
    next
      case 2
      then obtain a b where "s = a @ u @ b" using Cons.IH by blast
      then have "c # s = (c # a) @ u @ b" by simp
      then show ?thesis by blast
    qed
  next
    assume "\<exists>a b. c # s = a @ u @ b"
    then obtain a b where ab: "c # s = a @ u @ b" by blast
    show "str_contains (c # s) u"
    proof (cases a)
      case Nil
      then have "startswith (c # s) u" using ab by (auto simp: startswith_iff)
      then show ?thesis by simp
    next
      case (Cons x a')
      then have "s = a' @ u @ b" using ab by simp
      then have "str_contains s u" using Cons.IH by blast
      then show ?thesis by simp
    qed
  qed
qed


lemma split_on_not_Nil: "split_on c s \<noteq> []"
  by (induction s) (auto split: list.splits)

lemma split_on_absent: "c \<notin> set s \<Longrightarrow> split_on c s = [s]"
  by (induction s) auto

lemma split_on_append:
  "c \<notin> set a \<Longrightarrow> split_on c (a @ c # b) = a # split_on c b"
  by (induction a) (auto split: list.splits)

lemma last_split_on: "last (split_on c s) = rev (takeWhile (\<lambda>x. x \<noteq> c) (rev s))"
proof (induction s)
  case Nil
  then show ?case by simp
next
  case (Cons x xs)
  show ?case
  proof (cases "x = c")
    case True
    then show ?thesis using Cons split_on_not_Nil[of c xs]
      by (auto simp: takeWhile_append)
  next
    case False
    obtain w ws where w: "split_on c xs = w # ws"
      using split_on_not_Nil[of c xs] by (cases "split_on c xs") auto
    show ?thesis
    proof (cases "c \<in> set xs")
      case True
      then have "ws \<noteq> []"
        using w
      proof (induction xs arbitrary: w ws)
        case Nil
        then show ?case by simp
      next
        case (Cons y ys)
        then show ?case
          using split_on_not_Nil[of c ys] by (auto split: if_splits list.splits)
      qed
      then show ?thesis using Cons w False True
        by (auto simp: takeWhile_append)
    next
      case nin: False
      then show ?thesis using False
        by (simp add: split_on_absent takeWhile_append)
    qed
  qed
qed

lemma rev_takeWhile_twice:
  "takeWhile Q (takeWhile P xs) = takeWhile (\<lambda>x. P x \<and> Q x) xs"
  by (induction xs) auto

lemma local_name_trailing: "local_name s = trailing_segment s"
  by (simp add: local_name_def trailing_segment_def last_split_on rev_takeWhile_twice)

lemma split_on_two:
  "c \<notin> set p \<Longrightarrow> c \<notin> set n \<Longrightarrow> split_on c (p @ c # n) = [p, n]"
  by (simp add: split_on_append split_on_absent)



section \<open>The registry built from a document\<close>

lemma map_of_append_up:
  "map_of (append_up nodes k x) k' =
     (if k' = k then map_option (\<lambda>n. n\<lparr>up := up n @ [x]\<rparr>) (map_of nodes k) else map_of nodes k')"
  by (auto simp: append_up_def update_conv' split: option.splits)

lemma map_of_append_down:
  "map_of (append_down nodes k x) k' =
     (if k' = k then map_option (\<lambda>n. n\<lparr>down := down n @ [x]\<rparr>) (map_of nodes k) else map_of nodes k')"
  by (auto simp: append_down_def update_conv' split: option.splits)

lemma reg_le_refl: "reg_le a a"
  by (simp add: reg_le_def)

lemma reg_le_trans: "reg_le a b \<Longrightarrow> reg_le b c \<Longrightarrow> reg_le a c"
proof (unfold reg_le_def, intro allI impI)
  fix k n
  assume ab: "\<forall>k n. map_of a k = Some n \<longrightarrow>
        (\<exists>n'. map_of b k = Some n' \<and> set (up n) \<subseteq> set (up n') \<and> set (down n) \<subseteq> set (down n') \<and>
              (ntype n \<noteq> None \<longrightarrow> ntype n' = ntype n))"
    and bc: "\<forall>k n. map_of b k = Some n \<longrightarrow>
        (\<exists>n'. map_of c k = Some n' \<and> set (up n) \<subseteq> set (up n') \<and> set (down n) \<subseteq> set (down n') \<and>
              (ntype n \<noteq> None \<longrightarrow> ntype n' = ntype n))"
    and a: "map_of a k = Some n"
  from ab a obtain n1 where n1: "map_of b k = Some n1" "set (up n) \<subseteq> set (up n1)"
    "set (down n) \<subseteq> set (down n1)" "ntype n \<noteq> None \<longrightarrow> ntype n1 = ntype n"
    by blast
  from bc n1(1) obtain n2 where n2: "map_of c k = Some n2" "set (up n1) \<subseteq> set (up n2)"
    "set (down n1) \<subseteq> set (down n2)" "ntype n1 \<noteq> None \<longrightarrow> ntype n2 = ntype n1"
    by blast
  show "\<exists>n'. map_of c k = Some n' \<and> set (up n) \<subseteq> set (up n') \<and> set (down n) \<subseteq> set (down n') \<and>
              (ntype n \<noteq> None \<longrightarrow> ntype n' = ntype n)"
    using n1 n2 by auto
qed

lemma reg_le_declare_node: "reg_le nodes (declare_node nodes k tp)"
  by (auto simp: reg_le_def map_of_declare_node)

lemma reg_le_append_up: "reg_le nodes (append_up nodes k x)"
  by (auto simp: reg_le_def map_of_append_up)

lemma reg_le_append_down: "reg_le nodes (append_down nodes k x)"
  by (auto simp: reg_le_def map_of_append_down)

lemma reg_le_foldl:
  "(\<And>s x. reg_le s (f s x)) \<Longrightarrow> reg_le s (foldl f s xs)"
proof (induction xs arbitrary: s)
  case Nil
  then show ?case by (simp add: reg_le_refl)
next
  case (Cons x xs)
  then show ?case by (metis foldl_Cons reg_le_trans)
qed

lemma reg_le_link_output_source: "reg_le nodes (link_output_source oid nodes i)"
  unfolding link_output_source_def
  by (blast intro: reg_le_trans reg_le_append_up reg_le_declare_node reg_le_append_down)

lemma reg_le_link_step_source: "reg_le nodes (link_step_source sid nodes i)"
  unfolding link_step_source_def
  by (blast intro: reg_le_trans reg_le_append_up reg_le_declare_node reg_le_append_down)

lemma reg_le_link_step_out: "reg_le nodes (link_step_out sid nodes i)"
  unfolding link_step_out_def
  by (blast intro: reg_le_trans reg_le_append_up reg_le_declare_node reg_le_append_down)

lemma reg_le_declare_input: "reg_le nodes (declare_input nodes i)"
  by (simp add: declare_input_def reg_le_declare_node)

lemma reg_le_declare_output: "reg_le nodes (declare_output nodes out)"
  unfolding declare_output_def
  by (rule reg_le_trans[OF reg_le_declare_node reg_le_foldl]) (rule reg_le_link_output_source)

lemma reg_le_declare_step: "reg_le nodes (declare_step nodes st)"
  unfolding declare_step_def
  by (rule reg_le_trans[OF reg_le_declare_node
        reg_le_trans[OF reg_le_foldl reg_le_foldl]])
     (rule reg_le_link_step_source, rule reg_le_link_step_out)


subsection \<open>Keys\<close>

lemma dom_declare_node: "dom (map_of (declare_node nodes k tp)) = insert k (dom (map_of nodes))"
  by (auto simp: map_of_declare_node split: if_splits option.splits)

lemma dom_append_up: "dom (map_of (append_up nodes k x)) = dom (map_of nodes)"
  by (auto simp: map_of_append_up split: if_splits)

lemma dom_append_down: "dom (map_of (append_down nodes k x)) = dom (map_of nodes)"
  by (auto simp: map_of_append_down split: if_splits)

lemma dom_link_output_source:
  "dom (map_of (link_output_source oid nodes i)) = insert i (dom (map_of nodes))"
  by (simp add: link_output_source_def dom_append_down dom_declare_node dom_append_up)

lemma dom_link_step_source:
  "dom (map_of (link_step_source sid nodes i)) = insert i (dom (map_of nodes))"
  by (simp add: link_step_source_def dom_append_down dom_declare_node dom_append_up)

lemma dom_link_step_out:
  "dom (map_of (link_step_out sid nodes i)) = insert i (dom (map_of nodes))"
  by (simp add: link_step_out_def dom_append_down dom_declare_node dom_append_up)

lemma dom_foldl_insert:
  "(\<And>s x. dom (map_of (f s x)) = insert x (dom (map_of s))) \<Longrightarrow>
   dom (map_of (foldl f s xs)) = dom (map_of s) \<union> set xs"
  by (induction xs arbitrary: s) auto

lemma dom_declare_output:
  "dom (map_of (declare_output nodes out)) =
     insert (Name (out_id out)) (dom (map_of nodes)) \<union> set (output_sources out)"
  unfolding declare_output_def
  by (subst dom_foldl_insert) (simp_all add: dom_link_output_source dom_declare_node)

lemma dom_declare_step:
  "dom (map_of (declare_step nodes st)) =
     insert (Name (step_id st)) (dom (map_of nodes)) \<union> Name ` set (step_sources st) \<union>
       Name ` outport_id ` set (step_out st)"
  unfolding declare_step_def
  apply (subst dom_foldl_insert)
   apply (simp add: dom_link_step_out)
  apply (subst dom_foldl_insert)
   apply (simp add: dom_link_step_source)
  apply (auto simp: dom_declare_node)
  done

lemma dom_foldl_declare_input:
  "dom (map_of (foldl declare_input s ins)) = dom (map_of s) \<union> Name ` in_id ` set ins"
  by (induction ins arbitrary: s) (auto simp: declare_input_def dom_declare_node)

lemma dom_foldl_declare_output:
  "dom (map_of (foldl declare_output s outs)) =
     dom (map_of s) \<union> Name ` out_id ` set outs \<union> (\<Union>out \<in> set outs. set (output_sources out))"
  by (induction outs arbitrary: s) (auto simp: dom_declare_output)

lemma dom_foldl_declare_step:
  "dom (map_of (foldl declare_step s steps)) =
     dom (map_of s) \<union> Name ` step_id ` set steps \<union>
     (\<Union>st \<in> set steps. Name ` set (step_sources st)) \<union>
     (\<Union>st \<in> set steps. Name ` outport_id ` set (step_out st))"
  by (induction steps arbitrary: s) (auto simp: dom_declare_step)

lemma dom_build_nodes: "dom (map_of (build_nodes d)) = node_ids d"
  by (auto simp: build_nodes_def node_ids_def dom_foldl_declare_step dom_foldl_declare_output
      dom_foldl_declare_input)


subsection \<open>Closedness\<close>

lemma closed_declare_node: "closed_registry nodes \<Longrightarrow> closed_registry (declare_node nodes k tp)"
  unfolding closed_registry_def dom_declare_node
  by (auto simp: map_of_declare_node split: if_splits option.splits) blast+

lemma closed_link_up_down:
  assumes "closed_registry nodes" and "a \<in> dom (map_of nodes)"
  shows "closed_registry (append_down (declare_node (append_up nodes a b) b None) b a)"
proof (unfold closed_registry_def, intro allI impI)
  fix k n
  let ?r = "append_down (declare_node (append_up nodes a b) b None) b a"
  assume kn: "map_of ?r k = Some n"
  have d: "dom (map_of ?r) = insert b (dom (map_of nodes))"
    by (simp add: dom_append_down dom_declare_node dom_append_up)
  from assms(2) obtain na where na: "map_of nodes a = Some na" by blast
  have old: "\<And>k' n'. map_of nodes k' = Some n' \<Longrightarrow> set (up n') \<union> set (down n') \<subseteq> dom (map_of nodes)"
    using assms(1) unfolding closed_registry_def by blast
  have "set (up n) \<union> set (down n) \<subseteq> insert a (insert b (dom (map_of nodes)))"
    using kn old na
    by (auto simp: map_of_append_down map_of_declare_node map_of_append_up
        split: if_splits option.splits) blast+
  then show "set (up n) \<union> set (down n) \<subseteq> dom (map_of ?r)"
    using d assms(2) by auto
qed

lemma closed_link_down_up:
  assumes "closed_registry nodes" and "a \<in> dom (map_of nodes)"
  shows "closed_registry (append_up (declare_node (append_down nodes a b) b None) b a)"
proof (unfold closed_registry_def, intro allI impI)
  fix k n
  let ?r = "append_up (declare_node (append_down nodes a b) b None) b a"
  assume kn: "map_of ?r k = Some n"
  have d: "dom (map_of ?r) = insert b (dom (map_of nodes))"
    by (simp add: dom_append_down dom_declare_node dom_append_up)
  from assms(2) obtain na where na: "map_of nodes a = Some na" by blast
  have old: "\<And>k' n'. map_of nodes k' = Some n' \<Longrightarrow> set (up n') \<union> set (down n') \<subseteq> dom (map_of nodes)"
    using assms(1) unfolding closed_registry_def by blast
  have "set (up n) \<union> set (down n) \<subseteq> insert a (insert b (dom (map_of nodes)))"
    using kn old na
    by (auto simp: map_of_append_down map_of_declare_node map_of_append_up
        split: if_splits option.splits) blast+
  then show "set (up n) \<union> set (down n) \<subseteq> dom (map_of ?r)"
    using d assms(2) by auto
qed

lemma closed_foldl_link:
  assumes "\<And>s x. closed_registry s \<Longrightarrow> a \<in> dom (map_of s) \<Longrightarrow> closed_registry (f s x)"
    and "\<And>s x. dom (map_of (f s x)) = insert x (dom (map_of s))"
  shows "closed_registry s \<Longrightarrow> a \<in> dom (map_of s) \<Longrightarrow> closed_registry (foldl f s xs)"
proof (induction xs arbitrary: s)
  case Nil
  then show ?case by simp
next
  case (Cons x xs)
  have "closed_registry (f s x)" using assms(1) Cons.prems by blast
  moreover have "a \<in> dom (map_of (f s x))" using assms(2) Cons.prems(2) by blast
  ultimately show ?case using Cons.IH by simp
qed

lemma closed_declare_output: "closed_registry nodes \<Longrightarrow> closed_registry (declare_output nodes out)"
  unfolding declare_output_def
  by (rule closed_foldl_link[where a = "Name (out_id out)"])
     (auto simp: link_output_source_def closed_link_up_down dom_link_output_source[unfolded link_output_source_def]
        closed_declare_node dom_declare_node)

lemma closed_declare_step: "closed_registry nodes \<Longrightarrow> closed_registry (declare_step nodes st)"
  unfolding declare_step_def
  apply (rule closed_foldl_link[where a = "Name (step_id st)"])
     apply (simp add: link_step_out_def closed_link_down_up)
    apply (simp add: dom_link_step_out)
   apply (rule closed_foldl_link[where a = "Name (step_id st)"])
      apply (simp add: link_step_source_def closed_link_up_down)
     apply (simp add: dom_link_step_source)
    apply (simp add: closed_declare_node)
   apply (simp add: dom_declare_node)
  apply (subst dom_foldl_insert)
   apply (simp add: dom_link_step_source)
  apply (simp add: dom_declare_node)
  done

lemma closed_foldl:
  "(\<And>s x. closed_registry s \<Longrightarrow> closed_registry (f s x)) \<Longrightarrow> closed_registry s \<Longrightarrow>
   closed_registry (foldl f s xs)"
  by (induction xs arbitrary: s) auto

lemma closed_build_nodes: "closed_registry (build_nodes d)"
  unfolding build_nodes_def
  apply (rule closed_foldl, erule closed_declare_step)
  apply (rule closed_foldl, erule closed_declare_output)
  apply (rule closed_foldl)
   apply (simp add: declare_input_def closed_declare_node)
  apply (simp add: closed_registry_def)
  done


section \<open>Kinds and upstream lists of the built registry\<close>

lemma reg_le_kind:
  "reg_le a b \<Longrightarrow> map_of a k = Some n \<Longrightarrow> ntype n = Some t \<Longrightarrow>
   \<exists>n'. map_of b k = Some n' \<and> ntype n' = Some t \<and> set (up n) \<subseteq> set (up n')"
  unfolding reg_le_def by fastforce

lemma reg_le_foldl_declare_step: "reg_le s (foldl declare_step s steps)"
  by (rule reg_le_foldl) (rule reg_le_declare_step)

lemma reg_le_foldl_declare_output: "reg_le s (foldl declare_output s outs)"
  by (rule reg_le_foldl) (rule reg_le_declare_output)

lemma reg_le_foldl_declare_input: "reg_le s (foldl declare_input s ins)"
  by (rule reg_le_foldl) (rule reg_le_declare_input)

subsection \<open>Kinds\<close>

lemma declared_kind:
  "\<exists>n. map_of (declare_node nodes k (Some t)) k = Some n \<and> ntype n \<noteq> None"
  by (auto simp: map_of_declare_node split: option.splits)

lemma foldl_declare_input_kind:
  "\<forall>k n. map_of s k = Some n \<longrightarrow> ntype n = Some INPUT \<Longrightarrow>
   \<forall>k n. map_of (foldl declare_input s ins) k = Some n \<longrightarrow> ntype n = Some INPUT"
proof (induction ins arbitrary: s)
  case Nil
  then show ?case by simp
next
  case (Cons i ins)
  have "\<forall>k n. map_of (declare_input s i) k = Some n \<longrightarrow> ntype n = Some INPUT"
    using Cons.prems by (auto simp: declare_input_def map_of_declare_node split: if_splits option.splits)
  from Cons.IH[OF this] show ?case by simp
qed

lemma build_nodes_input_kind:
  assumes "inp \<in> set (doc_inputs d)"
  shows "\<exists>n. map_of (build_nodes d) (Name (in_id inp)) = Some n \<and> ntype n = Some INPUT"
proof -
  let ?r = "foldl declare_input [] (doc_inputs d)"
  have "Name (in_id inp) \<in> dom (map_of ?r)"
    using assms by (simp add: dom_foldl_declare_input)
  then obtain n where n: "map_of ?r (Name (in_id inp)) = Some n" by blast
  then have "ntype n = Some INPUT"
    using foldl_declare_input_kind[of "[]" "doc_inputs d"] by simp
  moreover have "reg_le ?r (build_nodes d)"
    unfolding build_nodes_def
    by (rule reg_le_trans[OF reg_le_foldl_declare_output reg_le_foldl_declare_step])
  ultimately show ?thesis using reg_le_kind n by blast
qed

lemma input_kinds_declare_node:
  "input_kinds_in I nodes \<Longrightarrow> tp \<noteq> Some INPUT \<or> k \<in> I \<Longrightarrow> input_kinds_in I (declare_node nodes k tp)"
  unfolding input_kinds_in_def
  by (auto simp: map_of_declare_node split: if_splits option.splits)

lemma input_kinds_append_up: "input_kinds_in I nodes \<Longrightarrow> input_kinds_in I (append_up nodes k x)"
  unfolding input_kinds_in_def
  by (auto simp: map_of_append_up split: if_splits)

lemma input_kinds_append_down: "input_kinds_in I nodes \<Longrightarrow> input_kinds_in I (append_down nodes k x)"
  unfolding input_kinds_in_def
  by (auto simp: map_of_append_down split: if_splits)

lemma input_kinds_foldl:
  "(\<And>s x. input_kinds_in I s \<Longrightarrow> input_kinds_in I (f s x)) \<Longrightarrow> input_kinds_in I s \<Longrightarrow>
   input_kinds_in I (foldl f s xs)"
  by (induction xs arbitrary: s) auto

lemma input_kinds_declare_output:
  "input_kinds_in I nodes \<Longrightarrow> input_kinds_in I (declare_output nodes out)"
  unfolding declare_output_def
  by (rule input_kinds_foldl)
     (simp_all add: link_output_source_def input_kinds_append_down input_kinds_declare_node
        input_kinds_append_up)

lemma input_kinds_declare_step:
  "input_kinds_in I nodes \<Longrightarrow> input_kinds_in I (declare_step nodes st)"
  unfolding declare_step_def
  apply (rule input_kinds_foldl)
   apply (simp add: link_step_out_def input_kinds_append_down input_kinds_declare_node
        input_kinds_append_up)
  apply (rule input_kinds_foldl)
   apply (simp add: link_step_source_def input_kinds_append_down input_kinds_declare_node
        input_kinds_append_up)
  apply (simp add: input_kinds_declare_node)
  done

lemma build_nodes_input_kind_only:
  assumes "map_of (build_nodes d) k = Some n" and "ntype n = Some INPUT"
  shows "k \<in> Name ` in_id ` set (doc_inputs d)"
proof -
  let ?I = "Name ` in_id ` set (doc_inputs d)"
  have "input_kinds_in ?I (foldl declare_input [] (doc_inputs d))"
    unfolding input_kinds_in_def
    using dom_foldl_declare_input[of "[]" "doc_inputs d"] by auto
  then have "input_kinds_in ?I (foldl declare_output (foldl declare_input [] (doc_inputs d)) (doc_outputs d))"
    by (rule input_kinds_foldl[rotated]) (rule input_kinds_declare_output)
  then have "input_kinds_in ?I (build_nodes d)"
    unfolding build_nodes_def
    by (rule input_kinds_foldl[rotated]) (rule input_kinds_declare_step)
  then show ?thesis using assms unfolding input_kinds_in_def by blast
qed

subsection \<open>Upstream lists\<close>

lemma foldl_link_up:
  assumes "\<And>s x. f s x = append_down (declare_node (append_up s a x) x None) x a"
  shows "map_of s a = Some n \<Longrightarrow> ntype n \<noteq> None \<Longrightarrow>
     \<exists>n'. map_of (foldl f s xs) a = Some n' \<and> ntype n' = ntype n \<and> set (up n) \<union> set xs \<subseteq> set (up n')"
proof (induction xs arbitrary: s n)
  case Nil
  then show ?case by simp
next
  case (Cons x xs)
  have "\<exists>n1. map_of (f s x) a = Some n1 \<and> ntype n1 = ntype n \<and> set (up n) \<union> {x} \<subseteq> set (up n1)"
  proof (cases "x = a")
    case True
    then show ?thesis using Cons.prems
      by (simp add: assms map_of_append_down map_of_declare_node map_of_append_up) auto
  next
    case False
    then show ?thesis using Cons.prems
      by (simp add: assms map_of_append_down map_of_declare_node map_of_append_up) auto
  qed
  then obtain n1 where n1: "map_of (f s x) a = Some n1" "ntype n1 = ntype n" "set (up n) \<union> {x} \<subseteq> set (up n1)"
    by blast
  from Cons.IH[OF n1(1)] n1(2) Cons.prems(2) obtain n' where
    "map_of (foldl f (f s x) xs) a = Some n'" "ntype n' = ntype n1" "set (up n1) \<union> set xs \<subseteq> set (up n')"
    by auto
  then show ?case using n1 by auto
qed

lemma reg_le_up:
  "reg_le a b \<Longrightarrow> map_of a k = Some n \<Longrightarrow> ntype n \<noteq> None \<Longrightarrow>
   \<exists>n'. map_of b k = Some n' \<and> ntype n' \<noteq> None \<and> set (up n) \<subseteq> set (up n')"
  unfolding reg_le_def by fastforce

lemma declare_output_up:
  "\<exists>n. map_of (declare_output nodes out) (Name (out_id out)) = Some n \<and> ntype n \<noteq> None \<and>
       set (output_sources out) \<subseteq> set (up n)"
proof -
  obtain n0 where n0: "map_of (declare_node nodes (Name (out_id out)) (Some OUTPUT)) (Name (out_id out)) = Some n0"
    "ntype n0 \<noteq> None"
    using declared_kind by blast
  from foldl_link_up[where f = "link_output_source (Name (out_id out))", OF _ n0]
  show ?thesis
    unfolding declare_output_def link_output_source_def using n0(2) by fastforce
qed

lemma declare_step_up:
  "\<exists>n. map_of (declare_step nodes st) (Name (step_id st)) = Some n \<and> ntype n \<noteq> None \<and>
       Name ` set (step_sources st) \<subseteq> set (up n)"
proof -
  let ?sid = "Name (step_id st)"
  obtain n0 where n0: "map_of (declare_node nodes ?sid (Some STEP)) ?sid = Some n0" "ntype n0 \<noteq> None"
    using declared_kind by blast
  let ?r1 = "foldl (link_step_source ?sid) (declare_node nodes ?sid (Some STEP)) (map Name (step_sources st))"
  from foldl_link_up[where f = "link_step_source ?sid", OF _ n0, of "map Name (step_sources st)"]
  obtain n1 where n1: "map_of ?r1 ?sid = Some n1" "ntype n1 = ntype n0"
    "set (up n0) \<union> set (map Name (step_sources st)) \<subseteq> set (up n1)"
    unfolding link_step_source_def by blast
  have le: "reg_le ?r1 (declare_step nodes st)"
    unfolding declare_step_def by (rule reg_le_foldl) (rule reg_le_link_step_out)
  have "ntype n1 \<noteq> None" using n1(2) n0(2) by simp
  from reg_le_up[OF le n1(1) this]
  obtain n where "map_of (declare_step nodes st) ?sid = Some n" "set (up n1) \<subseteq> set (up n)"
    "ntype n \<noteq> None"
    by blast
  then show ?thesis using n1(3) by auto
qed

lemma foldl_declare_step_up:
  "st \<in> set steps \<Longrightarrow>
   \<exists>n. map_of (foldl declare_step s steps) (Name (step_id st)) = Some n \<and> ntype n \<noteq> None \<and>
       Name ` set (step_sources st) \<subseteq> set (up n)"
proof (induction steps arbitrary: s)
  case Nil
  then show ?case by simp
next
  case (Cons x xs)
  show ?case
  proof (cases "st = x")
    case True
    obtain n where n: "map_of (declare_step s x) (Name (step_id st)) = Some n" "ntype n \<noteq> None"
      "Name ` set (step_sources st) \<subseteq> set (up n)"
      using declare_step_up[of s x] True by blast
    from reg_le_up[OF reg_le_foldl_declare_step n(1,2), of xs] n(3)
    show ?thesis by fastforce
  next
    case False
    then show ?thesis using Cons by simp
  qed
qed

lemma foldl_declare_output_up:
  "out \<in> set outs \<Longrightarrow>
   \<exists>n. map_of (foldl declare_output s outs) (Name (out_id out)) = Some n \<and> ntype n \<noteq> None \<and>
       set (output_sources out) \<subseteq> set (up n)"
proof (induction outs arbitrary: s)
  case Nil
  then show ?case by simp
next
  case (Cons x xs)
  show ?case
  proof (cases "out = x")
    case True
    obtain n where n: "map_of (declare_output s x) (Name (out_id out)) = Some n" "ntype n \<noteq> None"
      "set (output_sources out) \<subseteq> set (up n)"
      using declare_output_up[of s x] True by blast
    from reg_le_up[OF reg_le_foldl_declare_output n(1,2), of xs] n(3)
    show ?thesis by fastforce
  next
    case False
    then show ?thesis using Cons by simp
  qed
qed

lemma build_nodes_step_up:
  "st \<in> set (doc_steps d) \<Longrightarrow>
   \<exists>n. map_of (build_nodes d) (Name (step_id st)) = Some n \<and> ntype n \<noteq> None \<and>
       Name ` set (step_sources st) \<subseteq> set (up n)"
  unfolding build_nodes_def by (rule foldl_declare_step_up)

lemma build_nodes_output_up:
  assumes "out \<in> set (doc_outputs d)"
  shows "\<exists>n. map_of (build_nodes d) (Name (out_id out)) = Some n \<and> ntype n \<noteq> None \<and>
       set (output_sources out) \<subseteq> set (up n)"
proof -
  obtain n where n: "map_of (foldl declare_output (foldl declare_input [] (doc_inputs d)) (doc_outputs d))
       (Name (out_id out)) = Some n" "ntype n \<noteq> None" "set (output_sources out) \<subseteq> set (up n)"
    using foldl_declare_output_up[OF assms] by blast
  from reg_le_up[OF reg_le_foldl_declare_step n(1,2), of "doc_steps d"] n(3)
  show ?thesis unfolding build_nodes_def by fastforce
qed


section \<open>The rewiring loop\<close>

lemma grows_refl: "grows a a"
  by (simp add: grows_def)

lemma grows_trans: "grows a b \<Longrightarrow> grows b c \<Longrightarrow> grows a c"
  unfolding grows_def by blast

lemma fold_err_invariant:
  assumes "fold_err f xs s = Inr s'" and "P s"
    and "\<And>a x b. x \<in> set xs \<Longrightarrow> P a \<Longrightarrow> f a x = Inr b \<Longrightarrow> P b"
  shows "P s'"
  using assms
proof (induction xs arbitrary: s)
  case Nil
  then show ?case by simp
next
  case (Cons x xs)
  from Cons.prems(1) obtain s1 where s1: "f s x = Inr s1" "fold_err f xs s1 = Inr s'"
    by (auto split: sum.splits)
  have "P s1" using Cons.prems(3)[of x s s1] Cons.prems(2) s1(1) by simp
  show ?case
  proof (rule Cons.IH[OF s1(2) \<open>P s1\<close>])
    fix y a b assume "y \<in> set xs" "P a" "f a y = Inr b"
    then show "P b" using Cons.prems(3)[of y a b] by simp
  qed
qed

lemma fold_err_grows:
  assumes "fold_err f xs s = Inr s'"
    and "\<And>a x b. x \<in> set xs \<Longrightarrow> f a x = Inr b \<Longrightarrow> grows a b"
  shows "grows s s'"
  using assms
proof (induction xs arbitrary: s)
  case Nil
  then show ?case by (simp add: grows_refl)
next
  case (Cons x xs)
  from Cons.prems(1) obtain s1 where s1: "f s x = Inr s1" "fold_err f xs s1 = Inr s'"
    by (auto split: sum.splits)
  have "grows s s1" using Cons.prems(2)[of x s s1] s1(1) by simp
  moreover have "grows s1 s'"
  proof (rule Cons.IH[OF s1(2)])
    fix y a b assume "y \<in> set xs" "f a y = Inr b"
    then show "grows a b" using Cons.prems(2)[of y a b] by simp
  qed
  ultimately show ?case by (rule grows_trans)
qed

lemma fold_err_member:
  assumes "fold_err f xs s = Inr s'" and "x \<in> set xs"
    and "\<And>a y b. y \<in> set xs \<Longrightarrow> f a y = Inr b \<Longrightarrow> grows a b"
  shows "\<exists>a b. grows s a \<and> f a x = Inr b \<and> grows b s'"
  using assms
proof (induction xs arbitrary: s)
  case Nil
  then show ?case by simp
next
  case (Cons y ys)
  from Cons.prems(1) obtain s1 where s1: "f s y = Inr s1" "fold_err f ys s1 = Inr s'"
    by (auto split: sum.splits)
  have g1: "grows s s1" using Cons.prems(3)[of y s s1] s1(1) by simp
  have st: "grows a b" if "z \<in> set ys" "f a z = Inr b" for z a b
    using Cons.prems(3)[of z a b] that by simp
  have g2: "grows s1 s'" by (rule fold_err_grows[OF s1(2)]) (rule st)
  show ?case
  proof (cases "x = y")
    case True
    then show ?thesis using s1(1) g2 grows_refl by blast
  next
    case False
    then have "x \<in> set ys" using Cons.prems(2) by simp
    have "\<exists>a b. grows s1 a \<and> f a x = Inr b \<and> grows b s'"
      by (rule Cons.IH[OF s1(2) \<open>x \<in> set ys\<close>]) (rule st)
    then obtain a b where "grows s1 a" "f a x = Inr b" "grows b s'" by blast
    then show ?thesis using g1 grows_trans by blast
  qed
qed

lemma dom_update_alist: "dom (map_of (AList.update k v al)) = insert k (dom (map_of al))"
  by (simp add: update_conv')

lemma rewire_up_cases:
  assumes "rewire_up ext tool nodes vd v nv st u = Inr st'"
  shows "st' = st \<or>
         (st' = (List.insert u (fst st), snd st) \<and>
            (\<exists>nu. map_of nodes u = Some nu \<and> ntype nu = Some INPUT)) \<or>
         (\<exists>us t. u = Name us \<and> st' = (fst st, AList.update us (rewire_name ext us, t) (snd st)))"
proof (cases "u \<in> set vd")
  case True
  then show ?thesis using assms by (simp add: rewire_up_def)
next
  case nvd: False
  show ?thesis
  proof (cases "map_of nodes u")
    case None
    then show ?thesis using assms nvd by (simp add: rewire_up_def)
  next
    case (Some nu)
    show ?thesis
    proof (cases "ntype nu = Some INPUT")
      case True
      then show ?thesis using assms nvd Some by (simp add: rewire_up_def)
    next
      case ni: False
      show ?thesis
      proof (cases u)
        case CommentedSeqClass
        then show ?thesis using assms nvd Some ni by (simp add: rewire_up_def)
      next
        case (Name us)
        show ?thesis
        proof (cases "ntype nv = Some STEP")
          case False
          then show ?thesis using assms nvd Some ni Name by (simp add: rewire_up_def Let_def)
        next
          case stp: True
          show ?thesis
          proof (cases v)
            case CommentedSeqClass
            then show ?thesis using assms nvd Some ni Name stp
              by (simp add: rewire_up_def Let_def split: if_splits)
          next
            case (Name vs)
            note v = this
            show ?thesis
            proof (cases "find_step ext (wf_steps tool) vs")
              case None
              then show ?thesis using assms nvd Some ni \<open>u = Name us\<close> stp v
                by (simp add: rewire_up_def Let_def)
            next
              case fs: (Some r)
              show ?thesis
              proof (cases r)
                case None
                then show ?thesis using assms nvd Some ni \<open>u = Name us\<close> stp v fs
                  by (simp add: rewire_up_def Let_def)
              next
                case (Some wfstep)
                note r = this
                show ?thesis
                proof (cases "scan_inputs us (step_inputs wfstep)")
                  case (Inl e)
                  then show ?thesis using assms nvd \<open>map_of nodes u = Some nu\<close> ni \<open>u = Name us\<close> stp v fs r
                    by (simp add: rewire_up_def Let_def)
                next
                  case (Inr ot)
                  show ?thesis
                  proof (cases ot)
                    case None
                    then show ?thesis using assms nvd \<open>map_of nodes u = Some nu\<close> ni \<open>u = Name us\<close> stp v fs r Inr
                      by (simp add: rewire_up_def Let_def)
                  next
                    case (Some t)
                    then have "st' = (fst st, AList.update us (rewire_name ext us, t) (snd st))"
                      using assms nvd \<open>map_of nodes u = Some nu\<close> ni \<open>u = Name us\<close> stp v fs r Inr
                      by (simp add: rewire_up_def Let_def)
                    then show ?thesis using \<open>u = Name us\<close> by blast
                  qed
                qed
              qed
            qed
          qed
        qed
      qed
    qed
  qed
qed

lemma rewire_up_grows:
  assumes "rewire_up ext tool nodes vd v nv st u = Inr st'"
  shows "grows st st'"
  using rewire_up_cases[OF assms]
  by (auto simp: grows_def update_conv')

lemma rewire_node_grows:
  assumes "rewire_node ext tool nodes vd st v = Inr st'"
  shows "grows st st'"
proof -
  from assms obtain nv where nv: "map_of nodes v = Some nv"
    by (auto simp: rewire_node_def split: option.splits)
  have g0: "grows st (List.insert v (fst st), snd st)" by (auto simp: grows_def)
  show ?thesis
  proof (cases "ntype nv = Some STEP \<or> ntype nv = Some OUTPUT")
    case True
    then have "fold_err (rewire_up ext tool nodes vd v nv) (up nv) (List.insert v (fst st), snd st) = Inr st'"
      using assms nv by (simp add: rewire_node_def)
    from fold_err_grows[OF this] rewire_up_grows have "grows (List.insert v (fst st), snd st) st'"
      by blast
    with g0 show ?thesis by (rule grows_trans)
  next
    case False
    then have "st' = (List.insert v (fst st), snd st)"
      using assms nv by (auto simp: rewire_node_def)
    with g0 show ?thesis by simp
  qed
qed

lemma rewire_node_inserts:
  assumes "rewire_node ext tool nodes vd st v = Inr st'"
  shows "v \<in> set (fst st')"
proof -
  from assms obtain nv where nv: "map_of nodes v = Some nv"
    by (auto simp: rewire_node_def split: option.splits)
  show ?thesis
  proof (cases "ntype nv = Some STEP \<or> ntype nv = Some OUTPUT")
    case True
    then have "fold_err (rewire_up ext tool nodes vd v nv) (up nv) (List.insert v (fst st), snd st) = Inr st'"
      using assms nv by (simp add: rewire_node_def)
    from fold_err_grows[OF this] rewire_up_grows have "grows (List.insert v (fst st), snd st) st'"
      by blast
    then show ?thesis by (auto simp: grows_def)
  next
    case False
    then have "st' = (List.insert v (fst st), snd st)"
      using assms nv by (auto simp: rewire_node_def)
    then show ?thesis by simp
  qed
qed

lemma rewire_pass_reached:
  assumes "rewire_pass ext tool nodes vd = Inr (visited, rewire)"
    and "set (set_order ext vd) = set vd"
  shows "set vd \<subseteq> set visited"
proof
  fix v assume "v \<in> set vd"
  then have "v \<in> set (set_order ext vd)" using assms(2) by simp
  from fold_err_member[OF assms(1)[unfolded rewire_pass_def] this] rewire_node_grows
  obtain a b where ab: "rewire_node ext tool nodes vd a v = Inr b" "grows b (visited, rewire)"
    by blast
  have "v \<in> set (fst b)" using rewire_node_inserts[OF ab(1)] .
  moreover have "set (fst b) \<subseteq> set visited" using ab(2) by (simp add: grows_def)
  ultimately show "v \<in> set visited" by blast
qed

lemma rewire_pass_pair:
  assumes "rewire_pass ext tool nodes vd = Inr (visited, rewire)"
    and "set (set_order ext vd) = set vd"
    and "v \<in> set vd" and "map_of nodes v = Some nv"
    and "ntype nv = Some STEP \<or> ntype nv = Some OUTPUT"
    and "u \<in> set (up nv)"
  shows "\<exists>a b. rewire_up ext tool nodes vd v nv a u = Inr b \<and> grows b (visited, rewire)"
proof -
  have "v \<in> set (set_order ext vd)" using assms(2,3) by simp
  from fold_err_member[OF assms(1)[unfolded rewire_pass_def] this] rewire_node_grows
  obtain a b where ab: "rewire_node ext tool nodes vd a v = Inr b" "grows b (visited, rewire)"
    by blast
  then have "fold_err (rewire_up ext tool nodes vd v nv) (up nv) (List.insert v (fst a), snd a) = Inr b"
    using assms(4,5) by (simp add: rewire_node_def)
  from fold_err_member[OF this assms(6)] rewire_up_grows
  obtain c e where "rewire_up ext tool nodes vd v nv c u = Inr e" "grows e b"
    by blast
  then show ?thesis using ab(2) grows_trans by blast
qed

lemma rewire_pass_input:
  assumes "rewire_pass ext tool nodes vd = Inr (visited, rewire)"
    and "set (set_order ext vd) = set vd"
    and "v \<in> set vd" and "map_of nodes v = Some nv"
    and "ntype nv = Some STEP \<or> ntype nv = Some OUTPUT"
    and "u \<in> set (up nv)" and "map_of nodes u = Some nu" and "ntype nu = Some INPUT"
  shows "u \<in> set visited"
proof (cases "u \<in> set vd")
  case True
  then show ?thesis using rewire_pass_reached[OF assms(1,2)] by blast
next
  case False
  from rewire_pass_pair[OF assms(1-6)] obtain a b where
    ab: "rewire_up ext tool nodes vd v nv a u = Inr b" "grows b (visited, rewire)" by blast
  have "b = (List.insert u (fst a), snd a)"
    using ab(1) False assms(7,8) by (simp add: rewire_up_def)
  then show ?thesis using ab(2) by (auto simp: grows_def)
qed

lemma rewire_up_reached_or_input:
  assumes "rewire_up ext tool nodes vd v nv st u = Inr st'" and "reached_or_input nodes vd st"
  shows "reached_or_input nodes vd st'"
  using rewire_up_cases[OF assms(1)] assms(2)
  by (auto simp: reached_or_input_def)

lemma rewire_node_reached_or_input:
  assumes "rewire_node ext tool nodes vd st v = Inr st'" and "reached_or_input nodes vd st"
    and "v \<in> set vd"
  shows "reached_or_input nodes vd st'"
proof -
  from assms(1) obtain nv where nv: "map_of nodes v = Some nv"
    by (auto simp: rewire_node_def split: option.splits)
  have r0: "reached_or_input nodes vd (List.insert v (fst st), snd st)"
    using assms(2,3) by (auto simp: reached_or_input_def)
  show ?thesis
  proof (cases "ntype nv = Some STEP \<or> ntype nv = Some OUTPUT")
    case True
    then have "fold_err (rewire_up ext tool nodes vd v nv) (up nv) (List.insert v (fst st), snd st) = Inr st'"
      using assms(1) nv by (simp add: rewire_node_def)
    from fold_err_invariant[OF this, where P = "reached_or_input nodes vd", OF r0]
    show ?thesis using rewire_up_reached_or_input by blast
  next
    case False
    then have "st' = (List.insert v (fst st), snd st)"
      using assms(1) nv by (auto simp: rewire_node_def)
    with r0 show ?thesis by simp
  qed
qed

lemma rewire_pass_visited_only:
  assumes "rewire_pass ext tool nodes vd = Inr (visited, rewire)"
    and "set (set_order ext vd) = set vd" and "x \<in> set visited"
  shows "x \<in> set vd \<or> (\<exists>n. map_of nodes x = Some n \<and> ntype n = Some INPUT)"
proof -
  have "reached_or_input nodes vd ([], [])" by (simp add: reached_or_input_def)
  from fold_err_invariant[OF assms(1)[unfolded rewire_pass_def], where P = "reached_or_input nodes vd", OF this]
  have "reached_or_input nodes vd (visited, rewire)"
    using rewire_node_reached_or_input assms(2) by blast
  then show ?thesis using assms(3) by (auto simp: reached_or_input_def)
qed

section \<open>Rewriting of sources in the returned document\<close>

lemma concat_map_filter_rewire:
  "concat (map (\<lambda>s. case map_of rw s of None \<Rightarrow> [] | Some rv \<Rightarrow> [fst rv]) xs) =
   map (\<lambda>s. fst (the (map_of rw s))) (filter (\<lambda>s. map_of rw s \<noteq> None) xs)"
  by (induction xs) (auto split: option.splits)

lemma rewire_port_source:
  "port_source (rewire_port rw p) =
     (case port_source p of
        None \<Rightarrow> None
      | Some (Multi xs) \<Rightarrow>
          Some (Multi (map (\<lambda>s. fst (the (map_of rw s))) (filter (\<lambda>s. map_of rw s \<noteq> None) xs)))
      | Some (Scalar s) \<Rightarrow> Some (Scalar (if map_of rw s = None then s else fst (the (map_of rw s)))))"
  by (auto simp: rewire_port_def concat_map_filter_rewire split: option.splits source.splits)

lemma rewire_port_eq:
  "rewire_port rw p =
     p\<lparr>port_source :=
         (case port_source p of
            None \<Rightarrow> None
          | Some (Multi xs) \<Rightarrow>
              Some (Multi (map (\<lambda>s. fst (the (map_of rw s))) (filter (\<lambda>s. map_of rw s \<noteq> None) xs)))
          | Some (Scalar s) \<Rightarrow>
              Some (Scalar (if map_of rw s = None then s else fst (the (map_of rw s)))))\<rparr>"
  by (auto simp: rewire_port_def concat_map_filter_rewire split: option.splits source.splits)

text \<open>
  Claim C7. In the returned document every kept step is the original record with each
  \<^verbatim>\<open>in\<close> port's \<^verbatim>\<open>source\<close> rewritten: a list keeps, in order, exactly its elements that are
  keys of the rewire table, each replaced by the synthetic identifier, and loses the others;
  a scalar is replaced when it is a key of the table and stays otherwise; a port without
  \<^verbatim>\<open>source\<close> stays as it is.
\<close>

theorem get_subgraph_rewrites_sources:
  assumes "visited_and_rewire ext roots tool = Inr (visited, rewire)"
  shows "\<exists>doc. get_subgraph ext roots tool = Inr doc \<and>
    doc_steps doc =
      map (\<lambda>i. Step (step_id i)
                 (map (\<lambda>in_port. in_port\<lparr>port_source :=
                         (case port_source in_port of
                            None \<Rightarrow> None
                          | Some (Multi xs) \<Rightarrow>
                              Some (Multi (map (\<lambda>s. fst (the (map_of rewire s)))
                                             (filter (\<lambda>s. map_of rewire s \<noteq> None) xs)))
                          | Some (Scalar s) \<Rightarrow>
                              Some (Scalar (if map_of rewire s = None then s
                                            else fst (the (map_of rewire s)))))\<rparr>)
                    (step_in i))
                 (step_out i) (step_run i) (step_inputs i))
        (filter (\<lambda>i. Name (step_id i) \<in> set visited) (doc_steps (wf_tool tool)))"
  using assms
  by (simp add: get_subgraph_def extracted_def rewire_step_def rewire_port_eq)

theorem get_subgraph_rewrites_sources_witness:
  "visited_and_rewire ext0 [''wf#B''] wf_merge =
     Inr ([Name ''wf#O'', Name ''wf#B/out'', Name ''wf#I'', Name ''wf#B''],
          [(''wf#A/out'', ''wf#A_out'', ''File[]'')]) \<and>
   (\<exists>doc. get_subgraph ext0 [''wf#B''] wf_merge = Inr doc \<and>
      map (\<lambda>i. map port_source (step_in i)) (doc_steps doc) =
        [[Some (Multi [''wf#A_out'']), Some (Scalar ''wf#I''), None]])"
proof -
  have h: "visited_and_rewire ext0 [''wf#B''] wf_merge =
     Inr ([Name ''wf#O'', Name ''wf#B/out'', Name ''wf#I'', Name ''wf#B''],
          [(''wf#A/out'', ''wf#A_out'', ''File[]'')])"
    by code_simp
  show ?thesis
    using h get_subgraph_rewrites_sources[OF h]
    by (auto simp: wf_merge_def workflow_of_def tool_step_def port_def)
qed


section \<open>The type recorded for a dangling dependency\<close>

lemma scan_inputs_first:
  "\<forall>q \<in> set pre. \<not> port_mentions u q \<Longrightarrow> port_mentions u p \<Longrightarrow>
   scan_inputs u (pre @ p # post) =
     (case port_type p of None \<Rightarrow> Inl (KeyError (Name ''type'')) | Some t \<Rightarrow> Inr (Some t))"
proof (induction pre)
  case Nil
  then show ?case
    by (auto simp: port_mentions_def source_contains_def str_contains_iff
        split: option.splits source.splits)
next
  case (Cons q pre)
  then have "\<not> port_mentions u q" by simp
  then have "scan_inputs u ((q # pre) @ p # post) = scan_inputs u (pre @ p # post)"
    by (auto simp: port_mentions_def source_contains_def str_contains_iff
        split: option.splits source.splits)
  then show ?case using Cons by simp
qed

text \<open>
  Claim C10. In the rewiring of a dangling dependency \<open>u\<close> of a step \<open>v\<close>, the port whose type
  is recorded is the first port of the located step's \<^verbatim>\<open>inputs\<close> that mentions \<open>u\<close>; a port
  with a scalar source mentions \<open>u\<close> as soon as \<open>u\<close> is a substring of that source, whatever
  stands before (\<open>a\<close>) and after (\<open>b\<close>) it.
\<close>

theorem rewire_type_by_substring:
  assumes "Name u \<notin> set visited_down"
    and "map_of nodes (Name u) = Some nu" and "ntype nu \<noteq> Some INPUT"
    and "ntype nv = Some STEP"
    and "find_step ext (wf_steps tool) v = Some (Some wfstep)"
    and "step_inputs wfstep = pre @ p # post"
    and "\<forall>q \<in> set pre. \<not> port_mentions u q"
    and "port_source p = Some (Scalar (a @ u @ b))"
    and "port_type p = Some t"
  shows "rewire_up ext tool nodes visited_down (Name v) nv (visited, rewire) (Name u) =
           Inr (visited, AList.update u (rewire_name ext u, t) rewire)"
proof -
  have "port_mentions u p" using assms(8) by (auto simp: port_mentions_def)
  then have "scan_inputs u (step_inputs wfstep) = Inr (Some t)"
    using scan_inputs_first[OF assms(7), of p post] assms(6,9) by simp
  then show ?thesis
    using assms(1-5) by (simp add: rewire_up_def Let_def)
qed

theorem rewire_type_by_substring_witness:
  "rewire_up ext0 wf_prefix (build_nodes (wf_tool wf_prefix))
      [Name ''wf#B'', Name ''wf#B/out'', Name ''wf#O'']
      (Name ''wf#B'')
      \<lparr>up = [Name ''wf#A/out2'', Name ''wf#A/out''], down = [Name ''wf#B/out''], ntype = Some STEP\<rparr>
      ([], []) (Name ''wf#A/out'') =
     Inr ([], [(''wf#A/out'', ''wf#A_out'', ''string'')]) \<and>
   visited_and_rewire ext0 [''wf#B''] wf_prefix =
     Inr ([Name ''wf#O'', Name ''wf#B/out'', Name ''wf#B''],
          [(''wf#A/out2'', ''wf#A_out2'', ''string''), (''wf#A/out'', ''wf#A_out'', ''string'')])"
proof -
  let ?B = "tool_step ''wf#B''
          [port ''wf#B/x'' (Some (Scalar ''wf#A/out2'')) (Some ''string''),
           port ''wf#B/y'' (Some (Scalar ''wf#A/out'')) (Some ''int'')]
          [''wf#B/out'']"
  have n: "map_of (build_nodes (wf_tool wf_prefix)) (Name ''wf#A/out'') =
      Some \<lparr>up = [Name ''wf#A''], down = [Name ''wf#B''], ntype = None\<rparr>"
    by code_simp
  have f: "find_step ext0 (wf_steps wf_prefix) ''wf#B'' = Some (Some ?B)"
    by code_simp
  have i: "step_inputs ?B = [] @ port ''wf#B/x'' (Some (Scalar ''wf#A/out2'')) (Some ''string'') #
             [port ''wf#B/y'' (Some (Scalar ''wf#A/out'')) (Some ''int'')]"
    by (simp add: tool_step_def)
  have r: "rewire_name ext0 ''wf#A/out'' = ''wf#A_out''"
    by code_simp
  have e: "visited_and_rewire ext0 [''wf#B''] wf_prefix =
     Inr ([Name ''wf#O'', Name ''wf#B/out'', Name ''wf#B''],
          [(''wf#A/out2'', ''wf#A_out2'', ''string''), (''wf#A/out'', ''wf#A_out'', ''string'')])"
    by code_simp
  show ?thesis
    using e r rewire_type_by_substring[where ext = ext0 and tool = wf_prefix and v = "''wf#B''"
        and u = "''wf#A/out''" and a = "[]" and b = "''2''" and t = "''string''" and pre = "[]"
        and visited = "[]" and rewire = "[]"
        and visited_down = "[Name ''wf#B'', Name ''wf#B/out'', Name ''wf#O'']"
        and nv = "\<lparr>up = [Name ''wf#A/out2'', Name ''wf#A/out''], down = [Name ''wf#B/out''], ntype = Some STEP\<rparr>",
        OF _ n _ _ f i]
    by (simp add: port_def)
qed


section \<open>\<^verbatim>\<open>find_step\<close>: order of the search\<close>

lemma find_step_Nil: "find_step ext [] stepid = Some None"
  by (simp add: find_step.simps)

lemma find_step_exact: "step_id st = stepid \<Longrightarrow> find_step ext (st # rest) stepid = Some (Some st)"
  by (subst find_step.simps) simp

lemma find_step_skip:
  "step_id st \<noteq> stepid \<Longrightarrow> \<not> startswith stepid (step_id st) \<Longrightarrow>
   find_step ext (st # rest) stepid = find_step ext rest stepid"
  by (subst find_step.simps) simp

lemma find_step_descend_live:
  "step_id st \<noteq> stepid \<Longrightarrow> startswith stepid (step_id st) \<Longrightarrow> step_run st = RunWorkflow w \<Longrightarrow>
   find_step ext (st # rest) stepid =
     Option.bind (find_step ext (wf_steps w) (drop (length (step_id st) + 1) stepid))
       (\<lambda>result. case result of Some r \<Rightarrow> Some (Some r) | None \<Rightarrow> find_step ext rest stepid)"
  by (subst find_step.simps) simp

lemma find_step_descend_map:
  "step_id st \<noteq> stepid \<Longrightarrow> startswith stepid (step_id st) \<Longrightarrow> step_run st = RunMap m \<Longrightarrow>
   doc_class m = ''Workflow'' \<Longrightarrow> make_tool ext m = PWorkflow p \<Longrightarrow>
   find_step ext (st # rest) stepid =
     Option.bind (find_step ext (wf_steps p) (adj_stepid p (drop (length (step_id st) + 1) stepid)))
       (\<lambda>result. case result of Some r \<Rightarrow> Some (Some r) | None \<Rightarrow> find_step ext rest stepid)"
  by (subst find_step.simps) simp

lemma find_step_descend_str:
  "step_id st \<noteq> stepid \<Longrightarrow> startswith stepid (step_id st) \<Longrightarrow> step_run st = RunStr s \<Longrightarrow>
   load_tool ext s = PWorkflow p \<Longrightarrow>
   find_step ext (st # rest) stepid =
     Option.bind (find_step ext (wf_steps p) (adj_stepid p (drop (length (step_id st) + 1) stepid)))
       (\<lambda>result. case result of Some r \<Rightarrow> Some (Some r) | None \<Rightarrow> find_step ext rest stepid)"
  by (subst find_step.simps) simp

lemma find_step_first_exact:
  "\<forall>s \<in> set pre. \<not> startswith stepid (step_id s) \<Longrightarrow> step_id st = stepid \<Longrightarrow>
   find_step ext (pre @ st # post) stepid = Some (Some st)"
proof (induction pre)
  case Nil
  then show ?case by (simp add: find_step_exact)
next
  case (Cons s pre)
  then have ns: "\<not> startswith stepid (step_id s)" by simp
  then have "step_id s \<noteq> stepid" by (auto simp: startswith_def)
  then show ?case using Cons ns by (simp add: find_step_skip)
qed

text \<open>
  Claim C4 does not hold of the code. \<^verbatim>\<open>find_step\<close> tests \<^verbatim>\<open>stepid.startswith(st_tool_id)\<close>
  and then cuts the target at \<^verbatim>\<open>len(st.tool["id"]) + 1\<close>: it takes for granted that a
  separator follows the prefix and never looks at that character. With a step \<^verbatim>\<open>wf#a\<close>
  (running a workflow that has a step \<^verbatim>\<open>b\<close>) listed before its sibling \<^verbatim>\<open>wf#a_b\<close>, the
  target \<^verbatim>\<open>wf#a_b\<close> is descended into \<^verbatim>\<open>wf#a\<close> although \<^verbatim>\<open>_\<close> is no separator, and the
  nested step \<^verbatim>\<open>b\<close> is returned in place of the step whose identifier is the target; with
  the two steps in the other order the step \<^verbatim>\<open>wf#a_b\<close> is returned.
\<close>

theorem find_step_unchecked_separator:
  "step_id sibling_a_b = ''wf#a_b'' \<and>
   find_step ext0 [outer_a, sibling_a_b] ''wf#a_b'' = Some (Some inner_b) \<and>
   step_id inner_b = ''b'' \<and>
   find_step ext0 [sibling_a_b, outer_a] ''wf#a_b'' = Some (Some sibling_a_b)"
  by code_simp

section \<open>\<^verbatim>\<open>get_step\<close>\<close>

lemma length_split_on: "length (split_on c s) = Suc (count_list s c)"
proof (induction s)
  case Nil
  then show ?case by simp
next
  case (Cons x xs)
  then show ?case using split_on_not_Nil[of c xs]
    by (cases "split_on c xs") auto
qed

lemma split_on_two_count: "split_on c s = [p, n] \<Longrightarrow> count_list s c = 1"
  using length_split_on[of c s] by simp

lemma get_step_value_error:
  assumes "find_step ext (wf_steps tool) sid = Some (Some S)"
    and "count_list (step_id S) CHR ''#'' \<noteq> 1"
  shows "get_step ext tool sid = Inl ValueError"
proof -
  have "\<And>p n. split_on CHR ''#'' (step_id S) \<noteq> [p, n]"
    using assms(2) split_on_two_count by blast
  then show ?thesis
    using assms(1)
    by (cases "split_on CHR ''#'' (step_id S)" rule: list.exhaust[case_product list.exhaust])
       (auto simp: get_step_def split: list.splits)
qed

lemma get_step_found:
  assumes "find_step ext (wf_steps tool) sid = Some (Some S)"
    and "step_id S = parent @ ''#'' @ name"
    and "CHR ''#'' \<notin> set parent" and "CHR ''#'' \<notin> set name"
    and "map_of (doc_other (wf_tool tool)) ''cwlVersion'' \<noteq> None \<or>
         map_of (wf_metadata tool) ''cwlVersion'' \<noteq> None"
  shows "\<exists>doc. get_step ext tool sid = Inr doc \<and> doc_id doc = parent \<and>
    doc_steps doc =
      [Step (step_id S)
         (map (\<lambda>p. p\<lparr>port_source := Some (Scalar (''#'' @ trailing_segment (port_id p))),
                      port_linkMerge := None\<rparr>) (step_in S))
         (step_out S) (step_run S) (step_inputs S)] \<and>
    doc_inputs doc =
      map (\<lambda>p. \<lparr>in_id = ''#'' @ trailing_segment (port_id p), in_type = ''Any'',
                 in_default = port_default p\<rparr>) (step_in S) \<and>
    doc_outputs doc =
      map (\<lambda>out. \<lparr>out_id = trailing_segment (outport_id out), out_type = ''Any'',
                   out_outputSource =
                     Some (Scalar (parent @ ''#'' @ name @ ''/'' @ trailing_segment (outport_id out)))\<rparr>)
        (step_out S)"
proof -
  have sp: "split_on CHR ''#'' (step_id S) = [parent, name]"
    using assms(2-4) split_on_two[of "CHR ''#''" parent name] by simp
  have sp': "step_port = (\<lambda>p. p\<lparr>port_source := Some (Scalar (''#'' @ trailing_segment (port_id p))),
                      port_linkMerge := None\<rparr>)"
    by (rule ext) (simp add: step_port_def local_name_trailing)
  have si: "step_input = (\<lambda>p. \<lparr>in_id = ''#'' @ trailing_segment (port_id p), in_type = ''Any'',
                 in_default = port_default p\<rparr>)"
    by (rule ext) (simp add: step_input_def local_name_trailing)
  have so: "step_output parent name = (\<lambda>out. \<lparr>out_id = trailing_segment (outport_id out), out_type = ''Any'',
                   out_outputSource =
                     Some (Scalar (parent @ ''#'' @ name @ ''/'' @ trailing_segment (outport_id out)))\<rparr>)"
    by (rule ext) (simp add: step_output_def local_name_trailing Let_def)
  show ?thesis
    using assms(1,5) sp
    by (auto simp: get_step_def Let_def sp' si so split: option.splits)
qed

lemma get_step_key_error:
  assumes "find_step ext (wf_steps tool) sid = Some (Some S)"
    and "step_id S = parent @ ''#'' @ name"
    and "CHR ''#'' \<notin> set parent" and "CHR ''#'' \<notin> set name"
    and "map_of (doc_other (wf_tool tool)) ''cwlVersion'' = None"
    and "map_of (wf_metadata tool) ''cwlVersion'' = None"
  shows "get_step ext tool sid = Inl (KeyError (Name ''cwlVersion''))"
proof -
  have sp: "split_on CHR ''#'' (step_id S) = [parent, name]"
    using assms(2-4) split_on_two[of "CHR ''#''" parent name] by simp
  show ?thesis
    using assms(1,5,6) sp by (simp add: get_step_def Let_def)
qed

text \<open>
  Claim C6, as the code has it. Let the step \<open>S\<close> be found. When its identifier has exactly
  one \<^verbatim>\<open>#\<close> (so that it splits into parent and step name) and a \<^verbatim>\<open>cwlVersion\<close> is in the
  document or in the metadata, \<^verbatim>\<open>get_step\<close> returns a document with the parent as \<^verbatim>\<open>id\<close>,
  with \<open>S\<close> as its only step, with one new input of type \<^verbatim>\<open>Any\<close> for every \<^verbatim>\<open>in\<close> port of
  \<open>S\<close>, whether the port has a source or not, named \<^verbatim>\<open>#\<close> and the trailing segment of the
  port's identifier, with every port's \<^verbatim>\<open>source\<close> set to that name and its \<^verbatim>\<open>linkMerge\<close>
  removed, and with one output of type \<^verbatim>\<open>Any\<close> for every \<^verbatim>\<open>out\<close> port, whose
  \<^verbatim>\<open>outputSource\<close> is parent, \<^verbatim>\<open>#\<close>, step name, \<^verbatim>\<open>/\<close> and the local name. When the
  identifier does not have exactly one \<^verbatim>\<open>#\<close>, \<^verbatim>\<open>get_step\<close> raises \<^verbatim>\<open>ValueError\<close>; when it
  has and no \<^verbatim>\<open>cwlVersion\<close> is to be had, it raises \<^verbatim>\<open>KeyError\<close>.
\<close>

theorem get_step_one_step_document:
  assumes "find_step ext (wf_steps tool) sid = Some (Some S)"
  shows
   "(step_id S = parent @ ''#'' @ name \<and> CHR ''#'' \<notin> set parent \<and> CHR ''#'' \<notin> set name \<and>
     (map_of (doc_other (wf_tool tool)) ''cwlVersion'' \<noteq> None \<or>
      map_of (wf_metadata tool) ''cwlVersion'' \<noteq> None) \<longrightarrow>
     (\<exists>doc. get_step ext tool sid = Inr doc \<and> doc_id doc = parent \<and>
        doc_steps doc =
          [Step (step_id S)
             (map (\<lambda>p. p\<lparr>port_source := Some (Scalar (''#'' @ trailing_segment (port_id p))),
                          port_linkMerge := None\<rparr>) (step_in S))
             (step_out S) (step_run S) (step_inputs S)] \<and>
        doc_inputs doc =
          map (\<lambda>p. \<lparr>in_id = ''#'' @ trailing_segment (port_id p), in_type = ''Any'',
                     in_default = port_default p\<rparr>) (step_in S) \<and>
        doc_outputs doc =
          map (\<lambda>out. \<lparr>out_id = trailing_segment (outport_id out), out_type = ''Any'',
                       out_outputSource =
                         Some (Scalar (parent @ ''#'' @ name @ ''/'' @
                                       trailing_segment (outport_id out)))\<rparr>)
            (step_out S))) \<and>
    (count_list (step_id S) CHR ''#'' \<noteq> 1 \<longrightarrow> get_step ext tool sid = Inl ValueError) \<and>
    (step_id S = parent @ ''#'' @ name \<and> CHR ''#'' \<notin> set parent \<and> CHR ''#'' \<notin> set name \<and>
     map_of (doc_other (wf_tool tool)) ''cwlVersion'' = None \<and>
     map_of (wf_metadata tool) ''cwlVersion'' = None \<longrightarrow>
     get_step ext tool sid = Inl (KeyError (Name ''cwlVersion'')))"
  using get_step_found[OF assms, of parent name] get_step_value_error[OF assms]
    get_step_key_error[OF assms, of parent name]
  by blast

text \<open>
  The claim as stated fails on a port without a source: it promises one new input for each
  sourced port, and the code makes one for every port. Step \<^verbatim>\<open>wf#B\<close> of the example has two
  sourced ports and the port \<^verbatim>\<open>wf#B/z\<close> without \<^verbatim>\<open>source\<close>; the returned document has three
  new inputs, \<^verbatim>\<open>#z\<close> among them, and the port \<^verbatim>\<open>wf#B/z\<close> has the source \<^verbatim>\<open>#z\<close>.
\<close>

theorem get_step_one_step_document_counterexample:
  "find_step ext0 (wf_steps wf_merge) ''wf#B'' =
     Some (Some (tool_step ''wf#B''
       [port ''wf#B/x'' (Some (Multi [''wf#A/out'', ''wf#I''])) (Some ''File[]''),
        port ''wf#B/y'' (Some (Scalar ''wf#I'')) (Some ''File''),
        port ''wf#B/z'' None (Some ''int'')]
       [''wf#B/out''])) \<and>
   port_source (port ''wf#B/z'' None (Some ''int'')) = None \<and>
   get_step ext0 wf_merge ''wf#B'' =
     Inr (Document ''Workflow'' ''wf''
       [\<lparr>in_id = ''#x'', in_type = ''Any'', in_default = None\<rparr>,
        \<lparr>in_id = ''#y'', in_type = ''Any'', in_default = None\<rparr>,
        \<lparr>in_id = ''#z'', in_type = ''Any'', in_default = None\<rparr>]
       [\<lparr>out_id = ''out'', out_type = ''Any'', out_outputSource = Some (Scalar ''wf#B/out'')\<rparr>]
       [Step ''wf#B''
         [port ''wf#B/x'' (Some (Scalar ''#x'')) (Some ''File[]''),
          port ''wf#B/y'' (Some (Scalar ''#y'')) (Some ''File''),
          port ''wf#B/z'' (Some (Scalar ''#z'')) (Some ''int'')]
         [OutStr ''wf#B/out''] RunProcess
         [port ''wf#B/x'' (Some (Multi [''wf#A/out'', ''wf#I''])) (Some ''File[]''),
          port ''wf#B/y'' (Some (Scalar ''wf#I'')) (Some ''File''),
          port ''wf#B/z'' None (Some ''int'')]]
       [(''cwlVersion'', ''v1.2'')])"
  by code_simp

theorem get_step_one_step_document_witness:
  "(\<exists>doc. get_step ext0 wf_merge ''wf#B'' = Inr doc \<and> doc_id doc = ''wf'' \<and>
     map (\<lambda>i. map port_source (step_in i)) (doc_steps doc) =
       [[Some (Scalar ''#x''), Some (Scalar ''#y''), Some (Scalar ''#z'')]] \<and>
     map in_id (doc_inputs doc) = [''#x'', ''#y'', ''#z''] \<and>
     map out_outputSource (doc_outputs doc) = [Some (Scalar ''wf#B/out'')]) \<and>
   get_step ext0 wf_two_hashes ''wf#sub#s'' = Inl ValueError \<and>
   get_step ext0 (Workflow (Document ''Workflow'' ''wf'' [] [] [tool_step ''wf#s'' [] []] [])
                    [tool_step ''wf#s'' [] []] []) ''wf#s'' =
     Inl (KeyError (Name ''cwlVersion''))"
proof -
  let ?B = "tool_step ''wf#B''
          [port ''wf#B/x'' (Some (Multi [''wf#A/out'', ''wf#I''])) (Some ''File[]''),
           port ''wf#B/y'' (Some (Scalar ''wf#I'')) (Some ''File''),
           port ''wf#B/z'' None (Some ''int'')]
          [''wf#B/out'']"
  let ?W = "Workflow (Document ''Workflow'' ''wf'' [] [] [tool_step ''wf#s'' [] []] [])
                    [tool_step ''wf#s'' [] []] []"
  have f: "find_step ext0 (wf_steps wf_merge) ''wf#B'' = Some (Some ?B)"
    by code_simp
  have i: "step_id ?B = ''wf'' @ ''#'' @ ''B''" by (simp add: tool_step_def)
  have v: "map_of (doc_other (wf_tool wf_merge)) ''cwlVersion'' \<noteq> None \<or>
         map_of (wf_metadata wf_merge) ''cwlVersion'' \<noteq> None"
    by (simp add: wf_merge_def workflow_of_def)
  have t: "trailing_segment ''wf#B/x'' = ''x''" "trailing_segment ''wf#B/y'' = ''y''"
    "trailing_segment ''wf#B/z'' = ''z''" "trailing_segment ''wf#B/out'' = ''out''"
    by (simp_all add: trailing_segment_def)
  have f2: "find_step ext0 (wf_steps wf_two_hashes) ''wf#sub#s'' = Some (Some (tool_step ''wf#sub#s'' [] []))"
    by code_simp
  have c2: "count_list (step_id (tool_step ''wf#sub#s'' [] [])) CHR ''#'' \<noteq> 1"
    by (simp add: tool_step_def)
  have f3: "find_step ext0 (wf_steps ?W) ''wf#s'' = Some (Some (tool_step ''wf#s'' [] []))"
    by code_simp
  have i3: "step_id (tool_step ''wf#s'' [] []) = ''wf'' @ ''#'' @ ''s''" by (simp add: tool_step_def)
  have a: "\<exists>doc. get_step ext0 wf_merge ''wf#B'' = Inr doc \<and> doc_id doc = ''wf'' \<and>
     map (\<lambda>i. map port_source (step_in i)) (doc_steps doc) =
       [[Some (Scalar ''#x''), Some (Scalar ''#y''), Some (Scalar ''#z'')]] \<and>
     map in_id (doc_inputs doc) = [''#x'', ''#y'', ''#z''] \<and>
     map out_outputSource (doc_outputs doc) = [Some (Scalar ''wf#B/out'')]"
    using get_step_one_step_document[OF f, of "''wf''" "''B''"] i v t
    by (auto simp: tool_step_def port_def)
  have b: "get_step ext0 wf_two_hashes ''wf#sub#s'' = Inl ValueError"
    using get_step_one_step_document[OF f2, of "''wf''" "''B''"] c2 by blast
  have c: "get_step ext0 ?W ''wf#s'' = Inl (KeyError (Name ''cwlVersion''))"
    using get_step_one_step_document[OF f3, of "''wf''" "''s''"] i3 by simp
  show ?thesis using a b c by blast
qed

section \<open>The reachability walk\<close>

lemma unvisited_edges_mono: "V \<subseteq> W \<Longrightarrow> unvisited_edges nodes d W \<subseteq> unvisited_edges nodes d V"
  by (auto simp: unvisited_edges_def)

lemma subgraph_visit_total:
  "closed_registry nodes \<Longrightarrow> c \<in> dom (map_of nodes) \<union> set vis \<Longrightarrow>
     \<exists>vis'. subgraph_visit c nodes vis d = Inr vis'"
  "closed_registry nodes \<Longrightarrow> set cs \<subseteq> dom (map_of nodes) \<Longrightarrow>
     \<exists>vis'. subgraph_visit_all cs nodes vis d = Inr vis'"
proof (induction c nodes vis d and cs nodes vis d rule: subgraph_visit_subgraph_visit_all.induct)
  case (1 current nodes visited direction)
  show ?case
  proof (cases "current \<in> set visited")
    case True
    then show ?thesis by (simp add: subgraph_visit.simps)
  next
    case False
    then obtain n where n: "map_of nodes current = Some n" using 1(3) by auto
    have "set (case direction of UP \<Rightarrow> up n | DOWN \<Rightarrow> down n) \<subseteq> dom (map_of nodes)"
      using 1(2) n unfolding closed_registry_def by (cases direction) auto
    from 1(1)[OF False n 1(2) this] show ?thesis
      using False n by (simp add: subgraph_visit.simps)
  qed
next
  case (2 nodes visited direction)
  then show ?case by simp
next
  case (3 c cs nodes visited direction)
  from 3(1)[OF 3(3)] 3(4) obtain v1 where v1: "subgraph_visit c nodes visited direction = Inr v1"
    by auto
  from 3(2)[OF v1 3(3)] 3(4) show ?case using v1 by simp
qed

lemma subgraph_visit_result:
  "subgraph_visit c nodes vis d = Inr vis' \<Longrightarrow>
     \<exists>new. vis' = vis @ new \<and> distinct new \<and> set new \<inter> set vis = {} \<and> c \<in> set vis' \<and>
       (\<forall>x \<in> set new. \<exists>n. map_of nodes x = Some n \<and> set (successors d n) \<subseteq> set vis') \<and>
       (\<forall>x \<in> set new. (c, x) \<in> (unvisited_edges nodes d (set vis))\<^sup>*)"
  "subgraph_visit_all cs nodes vis d = Inr vis' \<Longrightarrow>
     \<exists>new. vis' = vis @ new \<and> distinct new \<and> set new \<inter> set vis = {} \<and> set cs \<subseteq> set vis' \<and>
       (\<forall>x \<in> set new. \<exists>n. map_of nodes x = Some n \<and> set (successors d n) \<subseteq> set vis') \<and>
       (\<forall>x \<in> set new. \<exists>c \<in> set cs. c \<notin> set vis \<and> (c, x) \<in> (unvisited_edges nodes d (set vis))\<^sup>*)"
proof (induction c nodes vis d and cs nodes vis d arbitrary: vis' and vis'
    rule: subgraph_visit_subgraph_visit_all.induct)
  case (1 current nodes visited direction)
  show ?case
  proof (cases "current \<in> set visited")
    case True
    then have "vis' = visited" using 1(2) by (simp add: subgraph_visit.simps)
    then show ?thesis using True by auto
  next
    case False
    then obtain n where n: "map_of nodes current = Some n"
      and r: "subgraph_visit_all (case direction of UP \<Rightarrow> up n | DOWN \<Rightarrow> down n) nodes
                (visited @ [current]) direction = Inr vis'"
      using 1(2) by (auto simp: subgraph_visit.simps split: option.splits)
    from 1(1)[OF False n r] obtain new' where new':
      "vis' = (visited @ [current]) @ new'" "distinct new'"
      "set new' \<inter> set (visited @ [current]) = {}"
      "set (case direction of UP \<Rightarrow> up n | DOWN \<Rightarrow> down n) \<subseteq> set vis'"
      "\<forall>x \<in> set new'. \<exists>n. map_of nodes x = Some n \<and> set (successors direction n) \<subseteq> set vis'"
      "\<forall>x \<in> set new'. \<exists>c \<in> set (case direction of UP \<Rightarrow> up n | DOWN \<Rightarrow> down n).
           c \<notin> set (visited @ [current]) \<and>
           (c, x) \<in> (unvisited_edges nodes direction (set (visited @ [current])))\<^sup>*"
      by blast
    let ?new = "current # new'"
    have s: "successors direction n = (case direction of UP \<Rightarrow> up n | DOWN \<Rightarrow> down n)"
      by (simp add: successors_def split: direction.splits)
    have a: "vis' = visited @ ?new" using new'(1) by simp
    have b: "distinct ?new" using new'(2,3) by auto
    have c: "set ?new \<inter> set visited = {}" using new'(3) False by auto
    have d: "current \<in> set vis'" using a by simp
    have e: "\<forall>x \<in> set ?new. \<exists>n. map_of nodes x = Some n \<and> set (successors direction n) \<subseteq> set vis'"
      using new'(4,5) n s by auto
    have f: "\<forall>x \<in> set ?new. (current, x) \<in> (unvisited_edges nodes direction (set visited))\<^sup>*"
    proof
      fix x assume "x \<in> set ?new"
      then consider "x = current" | "x \<in> set new'" by auto
      then show "(current, x) \<in> (unvisited_edges nodes direction (set visited))\<^sup>*"
      proof cases
        case 1
        then show ?thesis by simp
      next
        case 2
        then obtain c' where c': "c' \<in> set (successors direction n)" "c' \<notin> set (visited @ [current])"
          "(c', x) \<in> (unvisited_edges nodes direction (set (visited @ [current])))\<^sup>*"
          using new'(6) s by auto
        have "(current, c') \<in> unvisited_edges nodes direction (set visited)"
          using c'(1,2) False n by (auto simp: unvisited_edges_def)
        moreover have "(c', x) \<in> (unvisited_edges nodes direction (set visited))\<^sup>*"
          using c'(3) rtrancl_mono[OF unvisited_edges_mono[of "set visited" "set (visited @ [current])" nodes direction]]
          by auto
        ultimately show ?thesis by (rule converse_rtrancl_into_rtrancl)
      qed
    qed
    show ?thesis using a b c d e f by blast
  qed
next
  case (2 nodes visited direction)
  then show ?case by simp
next
  case (3 c cs nodes visited direction)
  from 3(3) obtain v1 where v1: "subgraph_visit c nodes visited direction = Inr v1"
    and r: "subgraph_visit_all cs nodes v1 direction = Inr vis'"
    by (auto split: sum.splits)
  from 3(1)[OF v1] obtain n1 where n1:
    "v1 = visited @ n1" "distinct n1" "set n1 \<inter> set visited = {}" "c \<in> set v1"
    "\<forall>x \<in> set n1. \<exists>n. map_of nodes x = Some n \<and> set (successors direction n) \<subseteq> set v1"
    "\<forall>x \<in> set n1. (c, x) \<in> (unvisited_edges nodes direction (set visited))\<^sup>*"
    by blast
  from 3(2)[OF v1 r] obtain n2 where n2:
    "vis' = v1 @ n2" "distinct n2" "set n2 \<inter> set v1 = {}" "set cs \<subseteq> set vis'"
    "\<forall>x \<in> set n2. \<exists>n. map_of nodes x = Some n \<and> set (successors direction n) \<subseteq> set vis'"
    "\<forall>x \<in> set n2. \<exists>c \<in> set cs. c \<notin> set v1 \<and> (c, x) \<in> (unvisited_edges nodes direction (set v1))\<^sup>*"
    by blast
  let ?new = "n1 @ n2"
  have a: "vis' = visited @ ?new" using n1(1) n2(1) by simp
  have b: "distinct ?new" using n1(1,2) n2(2,3) by auto
  have c: "set ?new \<inter> set visited = {}" using n1(1,3) n2(3) by auto
  have d: "set (c # cs) \<subseteq> set vis'" using n1(4) n2(1,4) by auto
  have e: "\<forall>x \<in> set ?new. \<exists>n. map_of nodes x = Some n \<and> set (successors direction n) \<subseteq> set vis'"
    using n1(5) n2(1,5) by fastforce
  have f: "\<forall>x \<in> set ?new. \<exists>c' \<in> set (c # cs). c' \<notin> set visited \<and>
             (c', x) \<in> (unvisited_edges nodes direction (set visited))\<^sup>*"
  proof
    fix x assume "x \<in> set ?new"
    then consider "x \<in> set n1" | "x \<in> set n2" by auto
    then show "\<exists>c' \<in> set (c # cs). c' \<notin> set visited \<and>
             (c', x) \<in> (unvisited_edges nodes direction (set visited))\<^sup>*"
    proof cases
      case 1
      have "c \<notin> set visited"
      proof
        assume "c \<in> set visited"
        then have "v1 = visited" using v1 by (simp add: subgraph_visit.simps)
        then show False using 1 n1(1) by simp
      qed
      then show ?thesis using n1(6) 1 by auto
    next
      case 2
      then obtain c' where c': "c' \<in> set cs" "c' \<notin> set v1"
        "(c', x) \<in> (unvisited_edges nodes direction (set v1))\<^sup>*"
        using n2(6) by blast
      have "(c', x) \<in> (unvisited_edges nodes direction (set visited))\<^sup>*"
        using c'(3) rtrancl_mono[OF unvisited_edges_mono[of "set visited" "set v1" nodes direction]] n1(1)
        by auto
      then show ?thesis using c'(1,2) n1(1) by auto
    qed
  qed
  show ?case using a b c d e f by blast
qed


lemma subgraph_visit_new:
  assumes "subgraph_visit c nodes vis d = Inr vis'"
  shows "\<exists>new. vis' = vis @ new \<and> distinct new \<and> set new \<inter> set vis = {} \<and>
           set new = {x. c \<notin> set vis \<and> (c, x) \<in> (unvisited_edges nodes d (set vis))\<^sup>*}"
proof -
  from subgraph_visit_result(1)[OF assms] obtain new where new:
    "vis' = vis @ new" "distinct new" "set new \<inter> set vis = {}" "c \<in> set vis'"
    "\<forall>x \<in> set new. \<exists>n. map_of nodes x = Some n \<and> set (successors d n) \<subseteq> set vis'"
    "\<forall>x \<in> set new. (c, x) \<in> (unvisited_edges nodes d (set vis))\<^sup>*"
    by blast
  have sound: "set new \<subseteq> {x. c \<notin> set vis \<and> (c, x) \<in> (unvisited_edges nodes d (set vis))\<^sup>*}"
  proof
    fix x assume x: "x \<in> set new"
    have "c \<notin> set vis"
    proof
      assume "c \<in> set vis"
      then have "vis' = vis" using assms by (simp add: subgraph_visit.simps)
      then show False using x new(1) by simp
    qed
    then show "x \<in> {x. c \<notin> set vis \<and> (c, x) \<in> (unvisited_edges nodes d (set vis))\<^sup>*}"
      using new(6) x by simp
  qed
  have complete: "x \<in> set new" if c: "c \<notin> set vis"
    and p: "(c, x) \<in> (unvisited_edges nodes d (set vis))\<^sup>*" for x
    using p
  proof (induction rule: rtrancl_induct)
    case base
    then show ?case using new(1,4) c by auto
  next
    case (step y z)
    from step(2) obtain n where n: "map_of nodes y = Some n" "z \<in> set (successors d n)" "z \<notin> set vis"
      by (auto simp: unvisited_edges_def)
    from new(5) step(3) n(1) have "set (successors d n) \<subseteq> set vis'" by fastforce
    then show ?case using n(2,3) new(1) by auto
  qed
  show ?thesis using new(1,2,3) sound complete by blast
qed

text \<open>
  Claim C2, as the code has it. For a root \<open>r\<close> with a registry node, the walk goes upstream
  when the node's kind is \<^verbatim>\<open>OUTPUT\<close> and downstream otherwise. On a registry all of whose
  edges point to keys (every registry built from a document) the walk returns. It appends to
  the aggregated set \<open>vis\<close>, each once, exactly the nodes that can be reached from \<open>r\<close> in
  that one direction along paths that stay outside \<open>vis\<close>: the nodes already in the set
  are neither added again nor expanded, so what lies behind them is not reached through
  them. When \<open>vis\<close> is empty these are all the nodes reachable from \<open>r\<close>.
\<close>

theorem visit_roots_direction_and_closure:
  assumes "map_of nodes (Name r) = Some n"
    and "d = (if ntype n = Some OUTPUT then UP else DOWN)"
  shows "visit_roots nodes (r # roots) vis =
           (case subgraph_visit (Name r) nodes vis d of
              Inl e \<Rightarrow> Inl e
            | Inr vis' \<Rightarrow> visit_roots nodes roots vis') \<and>
         (closed_registry nodes \<longrightarrow> (\<exists>vis'. subgraph_visit (Name r) nodes vis d = Inr vis')) \<and>
         (\<forall>vis'. subgraph_visit (Name r) nodes vis d = Inr vis' \<longrightarrow>
            (\<exists>new. vis' = vis @ new \<and> distinct new \<and> set new \<inter> set vis = {} \<and>
               set new = {x. Name r \<notin> set vis \<and>
                             (Name r, x) \<in> (unvisited_edges nodes d (set vis))\<^sup>*}))"
proof (intro conjI allI impI)
  show "visit_roots nodes (r # roots) vis =
           (case subgraph_visit (Name r) nodes vis d of
              Inl e \<Rightarrow> Inl e
            | Inr vis' \<Rightarrow> visit_roots nodes roots vis')"
    using assms by simp
next
  assume "closed_registry nodes"
  then show "\<exists>vis'. subgraph_visit (Name r) nodes vis d = Inr vis'"
    using subgraph_visit_total(1)[of nodes "Name r" vis d] assms(1) by auto
next
  fix vis' assume "subgraph_visit (Name r) nodes vis d = Inr vis'"
  then show "\<exists>new. vis' = vis @ new \<and> distinct new \<and> set new \<inter> set vis = {} \<and>
               set new = {x. Name r \<notin> set vis \<and>
                             (Name r, x) \<in> (unvisited_edges nodes d (set vis))\<^sup>*}"
    by (rule subgraph_visit_new)
qed


lemma wf_linear_nodes:
  "build_nodes (wf_tool wf_linear) =
   [(Name ''wf#I'', \<lparr>up = [], down = [Name ''wf#A''], ntype = Some INPUT\<rparr>),
    (Name ''wf#O'', \<lparr>up = [Name ''wf#B/out''], down = [], ntype = Some OUTPUT\<rparr>),
    (Name ''wf#B/out'', \<lparr>up = [Name ''wf#B''], down = [Name ''wf#O''], ntype = None\<rparr>),
    (Name ''wf#A'', \<lparr>up = [Name ''wf#I''], down = [Name ''wf#A/out''], ntype = Some STEP\<rparr>),
    (Name ''wf#A/out'', \<lparr>up = [Name ''wf#A''], down = [Name ''wf#B''], ntype = None\<rparr>),
    (Name ''wf#B'', \<lparr>up = [Name ''wf#A/out''], down = [Name ''wf#B/out''], ntype = Some STEP\<rparr>)]"
  by code_simp

text \<open>
  The claim as stated fails when an earlier root has already put nodes into the set. With
  the roots \<^verbatim>\<open>wf#B\<close> (a step, walked downstream) and \<^verbatim>\<open>wf#O\<close> (an output, to be walked
  upstream) of the linear pipeline, the output is already in the set when its walk starts:
  step \<^verbatim>\<open>wf#A\<close>, upstream of the output, is never added.
\<close>

theorem visit_roots_direction_and_closure_counterexample:
  "visit_roots (build_nodes (wf_tool wf_linear)) [''wf#B'', ''wf#O''] [] =
     Inr [Name ''wf#B'', Name ''wf#B/out'', Name ''wf#O''] \<and>
   map_of (build_nodes (wf_tool wf_linear)) (Name ''wf#O'') =
     Some \<lparr>up = [Name ''wf#B/out''], down = [], ntype = Some OUTPUT\<rparr> \<and>
   (Name ''wf#O'', Name ''wf#A'') \<in> (unvisited_edges (build_nodes (wf_tool wf_linear)) UP {})\<^sup>* \<and>
   Name ''wf#A'' \<notin> set [Name ''wf#B'', Name ''wf#B/out'', Name ''wf#O'']"
proof -
  let ?E = "unvisited_edges (build_nodes (wf_tool wf_linear)) UP {}"
  have e1: "(Name ''wf#O'', Name ''wf#B/out'') \<in> ?E"
    and e2: "(Name ''wf#B/out'', Name ''wf#B'') \<in> ?E"
    and e3: "(Name ''wf#B'', Name ''wf#A/out'') \<in> ?E"
    and e4: "(Name ''wf#A/out'', Name ''wf#A'') \<in> ?E"
    by (simp_all add: unvisited_edges_def successors_def wf_linear_nodes)
  have p: "(Name ''wf#O'', Name ''wf#A'') \<in> ?E\<^sup>*"
    using e1 e2 e3 e4 by (meson rtrancl.rtrancl_into_rtrancl rtrancl.rtrancl_refl)
  have v: "visit_roots (build_nodes (wf_tool wf_linear)) [''wf#B'', ''wf#O''] [] =
     Inr [Name ''wf#B'', Name ''wf#B/out'', Name ''wf#O'']"
    by code_simp
  show ?thesis using p v by (simp add: wf_linear_nodes)
qed


theorem visit_roots_direction_and_closure_witness:
  "visit_roots (build_nodes (wf_tool wf_linear)) [''wf#O''] [] =
     Inr [Name ''wf#O'', Name ''wf#B/out'', Name ''wf#B'', Name ''wf#A/out'', Name ''wf#A'', Name ''wf#I''] \<and>
   set [Name ''wf#O'', Name ''wf#B/out'', Name ''wf#B'', Name ''wf#A/out'', Name ''wf#A'', Name ''wf#I''] =
     {x. (Name ''wf#O'', x) \<in> (unvisited_edges (build_nodes (wf_tool wf_linear)) UP {})\<^sup>*} \<and>
   visit_roots (build_nodes (wf_tool wf_linear)) [''wf#A''] [Name ''wf#B''] =
     Inr [Name ''wf#B'', Name ''wf#A'', Name ''wf#A/out''] \<and>
   set [Name ''wf#A'', Name ''wf#A/out''] =
     {x. (Name ''wf#A'', x) \<in> (unvisited_edges (build_nodes (wf_tool wf_linear)) DOWN {Name ''wf#B''})\<^sup>*}"
proof -
  let ?nodes = "build_nodes (wf_tool wf_linear)"
  have o: "map_of ?nodes (Name ''wf#O'') = Some \<lparr>up = [Name ''wf#B/out''], down = [], ntype = Some OUTPUT\<rparr>"
    and a: "map_of ?nodes (Name ''wf#A'') =
              Some \<lparr>up = [Name ''wf#I''], down = [Name ''wf#A/out''], ntype = Some STEP\<rparr>"
    by (simp_all add: wf_linear_nodes)
  have vo: "subgraph_visit (Name ''wf#O'') ?nodes [] UP =
      Inr [Name ''wf#O'', Name ''wf#B/out'', Name ''wf#B'', Name ''wf#A/out'', Name ''wf#A'', Name ''wf#I'']"
    and va: "subgraph_visit (Name ''wf#A'') ?nodes [Name ''wf#B''] DOWN =
      Inr [Name ''wf#B'', Name ''wf#A'', Name ''wf#A/out'']"
    by code_simp+
  show ?thesis
    using visit_roots_direction_and_closure[OF o, of UP "[]" "[]"]
      visit_roots_direction_and_closure[OF a, of DOWN "[]" "[Name ''wf#B'']"]
      vo va
    by auto
qed


section \<open>Roots that are not registry keys\<close>

lemma set_step_sources:
  "set (step_sources st) =
     {r. \<exists>p \<in> set (step_in st). \<exists>src. port_source p = Some src \<and> r \<in> set (aslist src)}"
  by (auto simp: step_sources_def split: option.splits) metis+

lemma Name_in_output_sources:
  "Name r \<in> set (output_sources out) \<longleftrightarrow> (\<exists>src. out_outputSource out = Some src \<and> r \<in> set (aslist src))"
  by (auto simp: output_sources_def split: option.splits)

lemma Name_in_node_ids: "Name r \<in> node_ids d \<longleftrightarrow> declared_or_referenced d r"
proof -
  have a: "Name r \<in> Name ` A \<longleftrightarrow> r \<in> A" for A by auto
  have b: "Name r \<in> (\<Union>x \<in> S. Name ` f x) \<longleftrightarrow> (\<exists>x \<in> S. r \<in> f x)" for S and f :: "step \<Rightarrow> string set"
    by auto
  show ?thesis
    unfolding node_ids_def declared_or_referenced_def Un_iff a b UN_iff Name_in_output_sources
      set_step_sources mem_Collect_eq
    by blast
qed

lemma visit_roots_undeclared:
  "closed_registry nodes \<Longrightarrow> r \<in> set roots \<Longrightarrow> Name r \<notin> dom (map_of nodes) \<Longrightarrow>
   \<exists>r' \<in> set roots. Name r' \<notin> dom (map_of nodes) \<and> visit_roots nodes roots vis = Inl (KeyError (Name r'))"
proof (induction roots arbitrary: vis)
  case Nil
  then show ?case by simp
next
  case (Cons x xs)
  show ?case
  proof (cases "map_of nodes (Name x)")
    case None
    then show ?thesis by auto
  next
    case (Some n)
    then have "Name x \<in> dom (map_of nodes)" by auto
    then obtain v where v: "subgraph_visit (Name x) nodes vis
        (if ntype n = Some OUTPUT then UP else DOWN) = Inr v"
      using subgraph_visit_total(1)[OF Cons.prems(1), of "Name x" vis] by blast
    have "r \<in> set xs" using Cons.prems(2,3) Some by auto
    from Cons.IH[OF Cons.prems(1) this Cons.prems(3), of v] show ?thesis
      using Some v by auto
  qed
qed

text \<open>
  Claim C9. When some root is neither declared as an input, output or step of the document
  nor referenced by a \<^verbatim>\<open>source\<close>, an \<^verbatim>\<open>outputSource\<close> or a step's \<^verbatim>\<open>out\<close> list,
  \<^verbatim>\<open>get_subgraph\<close> returns no document; on a document of class \<^verbatim>\<open>Workflow\<close> the error is
  the \<^verbatim>\<open>KeyError\<close> of the registry lookup on such a root (the first of them).
\<close>

theorem get_subgraph_undeclared_root:
  assumes "r \<in> set roots" and "\<not> declared_or_referenced (wf_tool tool) r"
  shows "(\<exists>e. get_subgraph ext roots tool = Inl e) \<and>
         (doc_class (wf_tool tool) = ''Workflow'' \<longrightarrow>
            (\<exists>r' \<in> set roots. \<not> declared_or_referenced (wf_tool tool) r' \<and>
               get_subgraph ext roots tool = Inl (KeyError (Name r'))))"
proof -
  have "Name r \<notin> dom (map_of (build_nodes (wf_tool tool)))"
    using assms(2) by (simp add: dom_build_nodes Name_in_node_ids)
  from visit_roots_undeclared[OF closed_build_nodes assms(1) this, of "[]"]
  obtain r' where r': "r' \<in> set roots" "Name r' \<notin> dom (map_of (build_nodes (wf_tool tool)))"
    "visit_roots (build_nodes (wf_tool tool)) roots [] = Inl (KeyError (Name r'))"
    by blast
  have "\<not> declared_or_referenced (wf_tool tool) r'"
    using r'(2) by (simp add: dom_build_nodes Name_in_node_ids)
  then show ?thesis
    using r'(1,3) by (auto simp: get_subgraph_def visited_and_rewire_def)
qed

theorem get_subgraph_undeclared_root_witness:
  "get_subgraph ext0 [''wf#B'', ''wf#zz''] wf_linear = Inl (KeyError (Name ''wf#zz''))"
proof -
  have d: "\<not> declared_or_referenced (wf_tool wf_linear) ''wf#zz''"
    by (auto simp: declared_or_referenced_def wf_linear_def workflow_of_def tool_step_def port_def)
  have b: "declared_or_referenced (wf_tool wf_linear) ''wf#B''"
    by (simp add: declared_or_referenced_def wf_linear_def workflow_of_def tool_step_def port_def)
  have c: "doc_class (wf_tool wf_linear) = ''Workflow''"
    by (simp add: wf_linear_def workflow_of_def)
  show ?thesis
    using get_subgraph_undeclared_root[of "''wf#zz''" "[''wf#B'', ''wf#zz'']" wf_linear ext0] d b c
    by auto
qed


section \<open>Inputs kept by \<^verbatim>\<open>get_subgraph\<close>\<close>

lemma get_subgraph_InrD:
  assumes "get_subgraph ext roots tool = Inr doc"
  obtains vd visited rewire where
    "visit_roots (build_nodes (wf_tool tool)) roots [] = Inr vd"
    "rewire_pass ext tool (build_nodes (wf_tool tool)) vd = Inr (visited, rewire)"
    "visited_and_rewire ext roots tool = Inr (visited, rewire)"
    "doc = extracted (wf_tool tool) visited rewire"
proof -
  from assms obtain visited rewire where vr: "visited_and_rewire ext roots tool = Inr (visited, rewire)"
    and d: "doc = extracted (wf_tool tool) visited rewire"
    by (auto simp: get_subgraph_def split: sum.splits)
  from vr obtain vd where "visit_roots (build_nodes (wf_tool tool)) roots [] = Inr vd"
    "rewire_pass ext tool (build_nodes (wf_tool tool)) vd = Inr (visited, rewire)"
    by (auto simp: visited_and_rewire_def Let_def split: if_splits sum.splits)
  then show ?thesis using that vr d by blast
qed

lemma kind_not_input:
  assumes "map_of (build_nodes d) (Name i) = Some n" and "ntype n \<noteq> None"
    and "i \<notin> in_id ` set (doc_inputs d)"
  shows "ntype n = Some STEP \<or> ntype n = Some OUTPUT"
proof -
  have "ntype n \<noteq> Some INPUT"
    using build_nodes_input_kind_only[OF assms(1)] assms(3) by auto
  then show ?thesis using assms(2) by (cases "ntype n") (auto intro: kind.exhaust)
qed

lemma reached_record_keeps_input:
  assumes vd: "visit_roots (build_nodes d) roots [] = Inr vd"
    and rp: "rewire_pass ext tool (build_nodes d) vd = Inr (visited, rewire)"
    and so: "set (set_order ext vd) = set vd"
    and inp: "inp \<in> set (doc_inputs d)"
    and vis: "Name i \<in> set visited" and ni: "i \<notin> in_id ` set (doc_inputs d)"
    and nd: "map_of (build_nodes d) (Name i) = Some n" "ntype n \<noteq> None"
      "Name (in_id inp) \<in> set (up n)"
  shows "Name (in_id inp) \<in> set visited"
proof -
  have k: "ntype n = Some STEP \<or> ntype n = Some OUTPUT"
    using kind_not_input[OF nd(1,2) ni] .
  have "Name i \<in> set vd"
    using rewire_pass_visited_only[OF rp so vis] nd(1) k by auto
  moreover obtain nu where "map_of (build_nodes d) (Name (in_id inp)) = Some nu" "ntype nu = Some INPUT"
    using build_nodes_input_kind[OF inp] by blast
  ultimately show ?thesis
    using rewire_pass_input[OF rp so _ nd(1) k nd(3)] by blast
qed

text \<open>
  Claim C3. Let \<^verbatim>\<open>get_subgraph\<close> return a document, and let Python's iteration over the set
  \<^verbatim>\<open>visited_down\<close> go through each of its elements. Then every declared input of the
  workflow that occurs in a \<^verbatim>\<open>source\<close> of a step record kept in the returned document, or
  in the \<^verbatim>\<open>outputSource\<close> of an output record kept in it, is an input of the returned
  document, whether the walk reached that input or not. The kept record is one whose
  identifier is not also the identifier of a declared input: identifiers are unique in the
  data model, and the registry gives a shared identifier the kind \<^verbatim>\<open>INPUT\<close> only.
\<close>

theorem get_subgraph_keeps_referenced_inputs:
  assumes "get_subgraph ext roots tool = Inr doc"
    and "\<forall>xs. set (set_order ext xs) = set xs"
    and "inp \<in> set (doc_inputs (wf_tool tool))"
    and "(\<exists>st \<in> set (doc_steps (wf_tool tool)).
            step_id st \<in> step_id ` set (doc_steps doc) \<and>
            step_id st \<notin> in_id ` set (doc_inputs (wf_tool tool)) \<and>
            (\<exists>p \<in> set (step_in st). \<exists>src. port_source p = Some src \<and> in_id inp \<in> set (aslist src))) \<or>
         (\<exists>out \<in> set (doc_outputs (wf_tool tool)).
            out \<in> set (doc_outputs doc) \<and>
            out_id out \<notin> in_id ` set (doc_inputs (wf_tool tool)) \<and>
            (\<exists>src. out_outputSource out = Some src \<and> in_id inp \<in> set (aslist src)))"
  shows "inp \<in> set (doc_inputs doc)"
proof -
  let ?d = "wf_tool tool"
  from get_subgraph_InrD[OF assms(1)] obtain vd visited rewire where
    vd: "visit_roots (build_nodes ?d) roots [] = Inr vd"
    and rp: "rewire_pass ext tool (build_nodes ?d) vd = Inr (visited, rewire)"
    and doc: "doc = extracted ?d visited rewire"
    by metis
  have so: "set (set_order ext vd) = set vd" using assms(2) by simp
  have "Name (in_id inp) \<in> set visited"
    using assms(4)
  proof (elim disjE bexE conjE exE)
    fix st p src
    assume st: "st \<in> set (doc_steps ?d)" and kept: "step_id st \<in> step_id ` set (doc_steps doc)"
      and ni: "step_id st \<notin> in_id ` set (doc_inputs ?d)"
      and p: "p \<in> set (step_in st)" "port_source p = Some src" "in_id inp \<in> set (aslist src)"
    have vis: "Name (step_id st) \<in> set visited"
      using kept unfolding doc by (auto simp: extracted_def rewire_step_def)
    obtain n where n: "map_of (build_nodes ?d) (Name (step_id st)) = Some n" "ntype n \<noteq> None"
      "Name ` set (step_sources st) \<subseteq> set (up n)"
      using build_nodes_step_up[OF st] by blast
    have "in_id inp \<in> set (step_sources st)"
      using p by (auto simp: set_step_sources)
    then have "Name (in_id inp) \<in> set (up n)" using n(3) by blast
    then show ?thesis
      using reached_record_keeps_input[OF vd rp so assms(3) vis ni n(1,2)] by blast
  next
    fix out src
    assume out: "out \<in> set (doc_outputs ?d)" and kept: "out \<in> set (doc_outputs doc)"
      and ni: "out_id out \<notin> in_id ` set (doc_inputs ?d)"
      and s: "out_outputSource out = Some src" "in_id inp \<in> set (aslist src)"
    have vis: "Name (out_id out) \<in> set visited"
      using kept unfolding doc by (auto simp: extracted_def)
    obtain n where n: "map_of (build_nodes ?d) (Name (out_id out)) = Some n" "ntype n \<noteq> None"
      "set (output_sources out) \<subseteq> set (up n)"
      using build_nodes_output_up[OF out] by blast
    have "Name (in_id inp) \<in> set (output_sources out)"
      using s by (auto simp: Name_in_output_sources)
    then have "Name (in_id inp) \<in> set (up n)" using n(3) by blast
    then show ?thesis
      using reached_record_keeps_input[OF vd rp so assms(3) vis ni n(1,2)] by blast
  qed
  then show ?thesis
    using assms(3) unfolding doc by (simp add: extracted_def)
qed

theorem get_subgraph_keeps_referenced_inputs_witness:
  "visit_roots (build_nodes (wf_tool wf_linear)) [''wf#A''] [] =
     Inr [Name ''wf#A'', Name ''wf#A/out'', Name ''wf#B'', Name ''wf#B/out'', Name ''wf#O''] \<and>
   (\<exists>doc. get_subgraph ext0 [''wf#A''] wf_linear = Inr doc \<and>
      \<lparr>in_id = ''wf#I'', in_type = ''File'', in_default = None\<rparr> \<in> set (doc_inputs doc))"
proof -
  let ?A = "tool_step ''wf#A'' [port ''wf#A/x'' (Some (Scalar ''wf#I'')) (Some ''File'')] [''wf#A/out'']"
  let ?B = "tool_step ''wf#B'' [port ''wf#B/x'' (Some (Scalar ''wf#A/out'')) (Some ''int'')] [''wf#B/out'']"
  let ?doc = "Document ''Workflow'' ''wf''
       [\<lparr>in_id = ''wf#I'', in_type = ''File'', in_default = None\<rparr>]
       [\<lparr>out_id = ''wf#O'', out_type = ''File'', out_outputSource = Some (Scalar ''wf#B/out'')\<rparr>]
       [?A, ?B] [(''cwlVersion'', ''v1.2'')]"
  have v: "visit_roots (build_nodes (wf_tool wf_linear)) [''wf#A''] [] =
     Inr [Name ''wf#A'', Name ''wf#A/out'', Name ''wf#B'', Name ''wf#B/out'', Name ''wf#O'']"
    by code_simp
  have g: "get_subgraph ext0 [''wf#A''] wf_linear = Inr ?doc"
    by code_simp
  have o: "\<forall>xs. set (set_order ext0 xs) = set xs" by (simp add: ext0_def)
  have i: "\<lparr>in_id = ''wf#I'', in_type = ''File'', in_default = None\<rparr> \<in> set (doc_inputs (wf_tool wf_linear))"
    by (simp add: wf_linear_def workflow_of_def)
  have s: "(\<exists>st \<in> set (doc_steps (wf_tool wf_linear)).
            step_id st \<in> step_id ` set (doc_steps ?doc) \<and>
            step_id st \<notin> in_id ` set (doc_inputs (wf_tool wf_linear)) \<and>
            (\<exists>p \<in> set (step_in st). \<exists>src. port_source p = Some src \<and>
               in_id \<lparr>in_id = ''wf#I'', in_type = ''File'', in_default = None\<rparr> \<in> set (aslist src))) \<or>
         (\<exists>out \<in> set (doc_outputs (wf_tool wf_linear)).
            out \<in> set (doc_outputs ?doc) \<and>
            out_id out \<notin> in_id ` set (doc_inputs (wf_tool wf_linear)) \<and>
            (\<exists>src. out_outputSource out = Some src \<and>
               in_id \<lparr>in_id = ''wf#I'', in_type = ''File'', in_default = None\<rparr> \<in> set (aslist src)))"
    by (simp add: wf_linear_def workflow_of_def tool_step_def port_def)
  show ?thesis
    using v g get_subgraph_keeps_referenced_inputs[OF g o i s] by simp
qed


section \<open>Inputs made for dangling dependencies\<close>













end
